theory Spec2Isabelle
  imports Main "HOL-Library.AList" "HOL-Library.Sublist" "HOL-Library.Char_ord"
    "HOL-Library.List_Lexorder"
begin

section \<open>Data model\<close>

text \<open>
  A paper record as the scripts build and read it (\<open>parseEntry\<close> in
  \<open>scripts/utils/xml-parser.js\<close>, extended by \<open>categorizePapers\<close>). Only the fields
  some modelled function reads are named; the remaining ones (\<open>pdfUrl\<close>, \<open>doi\<close>,
  \<open>fetchedAt\<close>, ...) live in the extension part of the record, so that the JavaScript
  spread \<open>{...newPaper, categories: c, tags: t}\<close> is the record update
  \<open>newPaper\<lparr>categories := c, tags := t\<rparr>\<close>.

  A field that the code guards with \<open>||\<close> or \<open>?.\<close> may be absent (\<open>undefined\<close> or
  \<open>null\<close>): it is an \<open>option\<close>, \<open>None\<close> being absent. An array is always truthy in
  JavaScript, the empty one included; a string is falsy only when empty. The fields
  \<open>id\<close>, \<open>title\<close>, \<open>abstract\<close>, \<open>publishedDate\<close> and \<open>authors\<close> are read without
  a guard and are taken as present. Strings are lists of 8-bit characters.
\<close>

record author =
  name :: string
  affiliation :: "string option"

record tagset =
  auto :: "string list option"
  manual :: "string list option"

record paper =
  pid :: string
  title :: string
  authors :: "author list"
  abstract :: string
  publishedDate :: string
  updatedDate :: "string option"
  arxivUrl :: "string option"
  categories :: "string list option"
  tags :: "tagset option"

text \<open>
  \<open>new Date(s)\<close> is the host's date parser: it is a parameter of the model, giving the
  time value in milliseconds, or \<open>None\<close> for an Invalid Date (whose time value is NaN).
\<close>

type_synonym dateParser = "string \<Rightarrow> int option"

text \<open>\<open>a > b\<close> on two time values; a comparison with NaN is false.\<close>

definition jsGt :: "int option \<Rightarrow> int option \<Rightarrow> bool" where
  "jsGt a b = (case a of None \<Rightarrow> False
               | Some x \<Rightarrow> (case b of None \<Rightarrow> False | Some y \<Rightarrow> x > y))"

section \<open>Deduplicator and merger (\<open>scripts/utils/deduplicator.js\<close>)\<close>

text \<open>\<open>new Date(p.updatedDate || p.publishedDate)\<close>.\<close>

definition revisionDate :: "dateParser \<Rightarrow> 'a paper_scheme \<Rightarrow> int option" where
  "revisionDate dp p =
     dp (case updatedDate p of
           None \<Rightarrow> publishedDate p
         | Some s \<Rightarrow> if s = [] then publishedDate p else s)"

text \<open>
  The record stored when the incoming paper is newer:
  \<^verbatim>\<open>
  { ...newPaper,
    categories: existing.categories || newPaper.categories,
    tags: { auto: newPaper.tags?.auto || newPaper.categories || [],
            manual: existing.tags?.manual || [] } }
  \<close>
\<close>

definition carryForward :: "'a paper_scheme \<Rightarrow> 'a paper_scheme \<Rightarrow> 'a paper_scheme" where
  "carryForward existing newPaper =
     newPaper\<lparr>
       categories :=
         (case categories existing of Some c \<Rightarrow> Some c | None \<Rightarrow> categories newPaper),
       tags := Some \<lparr>
         auto = Some (case Option.bind (tags newPaper) auto of
                        Some a \<Rightarrow> a
                      | None \<Rightarrow> (case categories newPaper of Some c \<Rightarrow> c | None \<Rightarrow> [])),
         manual = Some (case Option.bind (tags existing) manual of
                          Some m \<Rightarrow> m
                        | None \<Rightarrow> []) \<rparr> \<rparr>"

text \<open>
  A JavaScript \<open>Map\<close> keeps its keys in insertion order, and \<open>set\<close> on a key that is
  present replaces the value in place: an association list with \<open>AList.update\<close>.
  \<open>Array.from(paperMap.values())\<close> is \<open>map snd\<close>.
\<close>

type_synonym 'a paperMap = "(string \<times> 'a paper_scheme) list"

record 'a mergeResult =
  merged :: "'a paper_scheme list"
  added :: nat
  updated :: nat

text \<open>The first loop of \<open>mergePapers\<close>: \<open>paperMap.set(paper.id, paper)\<close>.\<close>

definition loadMap :: "'a paper_scheme list \<Rightarrow> 'a paperMap" where
  "loadMap existingPapers = foldl (\<lambda>m p. AList.update (pid p) p m) [] existingPapers"

text \<open>One iteration of the second loop, on the state \<open>(paperMap, added, updated)\<close>.\<close>

definition mergeStep ::
  "dateParser \<Rightarrow> 'a paperMap \<times> nat \<times> nat \<Rightarrow> 'a paper_scheme \<Rightarrow> 'a paperMap \<times> nat \<times> nat"
where
  "mergeStep dp st newPaper =
     (case st of (paperMap, nAdded, nUpdated) \<Rightarrow>
        (case map_of paperMap (pid newPaper) of
           None \<Rightarrow> (AList.update (pid newPaper) newPaper paperMap, nAdded + 1, nUpdated)
         | Some existing \<Rightarrow>
             if jsGt (revisionDate dp newPaper) (revisionDate dp existing)
             then (AList.update (pid newPaper) (carryForward existing newPaper) paperMap,
                   nAdded, nUpdated + 1)
             else (paperMap, nAdded, nUpdated)))"

definition mergePapers ::
  "dateParser \<Rightarrow> 'a paper_scheme list \<Rightarrow> 'a paper_scheme list \<Rightarrow> 'a mergeResult"
where
  "mergePapers dp existingPapers newPapers =
     (case foldl (mergeStep dp) (loadMap existingPapers, 0, 0) newPapers of
        (paperMap, nAdded, nUpdated) \<Rightarrow>
          \<lparr> merged = map snd paperMap, added = nAdded, updated = nUpdated \<rparr>)"

text \<open>
  Vocabulary for the proofs about \<open>mergePapers\<close>. A map is well formed when its keys
  are distinct and every value is stored under its own id; an incoming paper is settled in
  a map when its id is present and it is not newer than the stored record; \<open>revised\<close> is
  what becomes of an existing record once a batch with distinct ids has been merged.
\<close>

definition wfMap :: "'a paperMap \<Rightarrow> bool" where
  "wfMap m = (distinct (map fst m) \<and> list_all (\<lambda>kv. fst kv = pid (snd kv)) m)"

definition settled :: "dateParser \<Rightarrow> 'a paperMap \<Rightarrow> 'a paper_scheme \<Rightarrow> bool" where
  "settled dp m n =
     (case map_of m (pid n) of
        None \<Rightarrow> False
      | Some s \<Rightarrow> \<not> jsGt (revisionDate dp n) (revisionDate dp s))"

definition revised ::
  "dateParser \<Rightarrow> 'a paper_scheme list \<Rightarrow> 'a paper_scheme \<Rightarrow> 'a paper_scheme"
where
  "revised dp ns e =
     (case find (\<lambda>n. pid n = pid e) ns of
        None \<Rightarrow> e
      | Some n \<Rightarrow> if jsGt (revisionDate dp n) (revisionDate dp e) then carryForward e n else e)"

section \<open>The JavaScript built-ins the scripts rely on\<close>

text \<open>
  \<open>String.prototype.toLowerCase\<close> on characters below 256: the letters A to Z and the
  Latin-1 capitals from 192 to 222 (the multiplication sign 215 apart) move up by 32, every
  other character stays. The mapping is character by character.
\<close>

definition lowerChar :: "char \<Rightarrow> char" where
  "lowerChar c =
     (let n = (of_char c :: nat)
      in if (65 \<le> n \<and> n \<le> 90) \<or> (192 \<le> n \<and> n \<le> 222 \<and> n \<noteq> 215)
         then char_of (n + 32) else c)"

definition toLowerCase :: "string \<Rightarrow> string" where
  "toLowerCase s = map lowerChar s"

text \<open>
  \<open>text.includes(k)\<close>: \<open>k\<close> starts at some position of \<open>text\<close>. (The name
  \<open>includes\<close> is reserved in Isabelle.)
\<close>

fun includesStr :: "string \<Rightarrow> string \<Rightarrow> bool" where
  "includesStr [] k = (k = [])"
| "includesStr (c # cs) k = (prefix k (c # cs) \<or> includesStr cs k)"

text \<open>
  \<open>Array.prototype.sort(compare)\<close>. The sort is stable, and for a consistent comparator
  its result is the one stable ordering, which this insertion sort computes: an element
  moves behind another only when the comparator is positive on the pair. A comparator
  value of NaN is \<open>None\<close>; where a comparator returns NaN the order that JavaScript
  gives depends on the engine, and the model then leaves such a pair in its order.
\<close>

definition jsPositive :: "int option \<Rightarrow> bool" where
  "jsPositive v = (case v of None \<Rightarrow> False | Some n \<Rightarrow> 0 < n)"

fun insertBy :: "('a \<Rightarrow> 'a \<Rightarrow> int option) \<Rightarrow> 'a \<Rightarrow> 'a list \<Rightarrow> 'a list" where
  "insertBy cmp x [] = [x]"
| "insertBy cmp x (y # ys) =
     (if jsPositive (cmp x y) then y # insertBy cmp x ys else x # y # ys)"

definition jsSort :: "('a \<Rightarrow> 'a \<Rightarrow> int option) \<Rightarrow> 'a list \<Rightarrow> 'a list" where
  "jsSort cmp xs = foldr (insertBy cmp) xs []"

text \<open>\<open>a - b\<close> on numbers that may be NaN.\<close>

definition jsMinus :: "int option \<Rightarrow> int option \<Rightarrow> int option" where
  "jsMinus a b = (case a of None \<Rightarrow> None
                  | Some x \<Rightarrow> (case b of None \<Rightarrow> None | Some y \<Rightarrow> Some (x - y)))"

text \<open>
  \<open>[...new Set(xs)]\<close>: the elements of \<open>xs\<close> in the order of their first occurrence
  (\<open>remdups\<close> would keep the last one).
\<close>

fun uniq :: "'a list \<Rightarrow> 'a list" where
  "uniq [] = []"
| "uniq (x # xs) = x # filter (\<lambda>y. y \<noteq> x) (uniq xs)"

text \<open>
  \<open>parseInt(s)\<close> without a radix: white space is skipped, a sign is read, the prefix
  \<open>0x\<close> or \<open>0X\<close> selects base 16, and the longest run of digits of the base is the
  value; with no digit the result is NaN (\<open>None\<close>). The white space below 256 is the
  characters 9 to 13, the space and the no-break space 160.
\<close>

definition isWhiteSpace :: "char \<Rightarrow> bool" where
  "isWhiteSpace c = (let n = (of_char c :: nat) in (9 \<le> n \<and> n \<le> 13) \<or> n = 32 \<or> n = 160)"

definition digitValue :: "char \<Rightarrow> nat option" where
  "digitValue c =
     (let n = (of_char c :: nat)
      in if 48 \<le> n \<and> n \<le> 57 then Some (n - 48)
         else if 97 \<le> n \<and> n \<le> 102 then Some (n - 87)
         else if 65 \<le> n \<and> n \<le> 70 then Some (n - 55)
         else None)"

definition isDigitOf :: "nat \<Rightarrow> char \<Rightarrow> bool" where
  "isDigitOf radix c = (case digitValue c of None \<Rightarrow> False | Some d \<Rightarrow> d < radix)"

definition digitsValue :: "nat \<Rightarrow> string \<Rightarrow> nat" where
  "digitsValue radix ds = foldl (\<lambda>a c. a * radix + (case digitValue c of None \<Rightarrow> 0 | Some d \<Rightarrow> d)) 0 ds"

definition parseInt :: "string \<Rightarrow> int option" where
  "parseInt s =
     (let s1 = dropWhile isWhiteSpace s;
          negative = (s1 \<noteq> [] \<and> hd s1 = CHR ''-'');
          s2 = (if s1 \<noteq> [] \<and> (hd s1 = CHR ''-'' \<or> hd s1 = CHR ''+'') then tl s1 else s1);
          hex = (prefix ''0x'' s2 \<or> prefix ''0X'' s2);
          radix = (if hex then 16 else 10);
          s3 = (if hex then drop 2 s2 else s2);
          ds = takeWhile (isDigitOf radix) s3
      in if ds = [] then None
         else Some (if negative then - int (digitsValue radix ds) else int (digitsValue radix ds)))"

section \<open>Categorizer (\<open>scripts/categorize-papers.js\<close>)\<close>

text \<open>
  A category definition of \<open>categories.json\<close>: \<open>cid\<close> is its \<open>id\<close> and
  \<open>keywordsOf\<close> its \<open>keywords\<close> (a reserved word in Isabelle); \<open>name\<close> and
  \<open>description\<close>, which the categorizer only prints, are in the extension part.
\<close>

record categoryDef =
  cid :: string
  keywordsOf :: "string list"

definition MIN_KEYWORD_MATCHES :: nat where
  "MIN_KEYWORD_MATCHES = 1"

record matchedCategory =
  mid :: string
  matches :: nat

text \<open>The inner loop: how many keywords of the category the text includes.\<close>

definition matchCount :: "string \<Rightarrow> 'c categoryDef_scheme \<Rightarrow> nat" where
  "matchCount text category =
     length (filter (\<lambda>keyword. includesStr text (toLowerCase keyword)) (keywordsOf category))"

definition categorizePaper :: "'a paper_scheme \<Rightarrow> 'c categoryDef_scheme list \<Rightarrow> string list" where
  "categorizePaper paper cats =
     (let text = toLowerCase (title paper @ '' '' @ abstract paper);
          matchedCategories =
            map (\<lambda>category. \<lparr> mid = cid category, matches = matchCount text category \<rparr>)
              (filter (\<lambda>category. MIN_KEYWORD_MATCHES \<le> matchCount text category) cats)
      in map mid
           (jsSort (\<lambda>a b. Some (int (matches b) - int (matches a))) matchedCategories))"

text \<open>\<open>categorizePapers\<close>: every paper gets its labels as \<open>categories\<close> and \<open>tags.auto\<close>.\<close>

definition categorizePapers ::
  "'a paper_scheme list \<Rightarrow> 'c categoryDef_scheme list \<Rightarrow> 'a paper_scheme list"
where
  "categorizePapers papers cats =
     map (\<lambda>paper.
            let categoryIds = categorizePaper paper cats
            in paper\<lparr> categories := Some categoryIds,
                      tags := Some \<lparr> auto = Some categoryIds, manual = Some [] \<rparr> \<rparr>)
       papers"

text \<open>
  The words of the specification: a keyword occurs in a text, case-insensitively, when
  some stretch of the text equals it up to the case of the letters; a category's count
  for a paper is the number of its keywords that occur in the title, a space and the
  abstract.
\<close>

definition occursIgnoringCase :: "string \<Rightarrow> string \<Rightarrow> bool" where
  "occursIgnoringCase keyword text =
     (\<exists>s. sublist s text \<and> toLowerCase s = toLowerCase keyword)"

definition keywordHits :: "'a paper_scheme \<Rightarrow> 'c categoryDef_scheme \<Rightarrow> nat" where
  "keywordHits paper category =
     length (filter (\<lambda>keyword. occursIgnoringCase keyword (title paper @ '' '' @ abstract paper))
               (keywordsOf category))"

section \<open>Identifier extraction (\<open>scripts/utils/xml-parser.js\<close>)\<close>

text \<open>A thrown \<open>Error\<close>, with its message.\<close>

datatype jsError = Error string

text \<open>
  \<open>url.match(/(\d{4}\.\d{4,5})(v\d+)?$/)\<close>. Without the \<open>u\<close> flag \<open>\d\<close> is an
  ASCII digit, and without the \<open>m\<close> flag \<open>$\<close> is the end of the input. The regular
  expression is tried at each position from the left; at a position it reads four
  digits and a dot, then five digits, or else four (the quantifier is greedy), and the
  rest of the input has to be empty or a \<open>v\<close> with at least one digit and only digits.
  The value is the first group.
\<close>

definition isDigit :: "char \<Rightarrow> bool" where
  "isDigit c = (let n = (of_char c :: nat) in 48 \<le> n \<and> n \<le> 57)"

definition matchTail :: "string \<Rightarrow> bool" where
  "matchTail t = (t = [] \<or> (hd t = CHR ''v'' \<and> tl t \<noteq> [] \<and> list_all isDigit (tl t)))"

definition matchAt :: "string \<Rightarrow> string option" where
  "matchAt s =
     (if 5 \<le> length s \<and> list_all isDigit (take 4 s) \<and> s ! 4 = CHR ''.''
      then (let r = drop 5 s
            in if 5 \<le> length r \<and> list_all isDigit (take 5 r) \<and> matchTail (drop 5 r)
               then Some (take 4 s @ ''.'' @ take 5 r)
               else if 4 \<le> length r \<and> list_all isDigit (take 4 r) \<and> matchTail (drop 4 r)
               then Some (take 4 s @ ''.'' @ take 4 r)
               else None)
      else None)"

fun matchFrom :: "string \<Rightarrow> string option" where
  "matchFrom [] = matchAt []"
| "matchFrom (c # cs) =
     (case matchAt (c # cs) of Some r \<Rightarrow> Some r | None \<Rightarrow> matchFrom cs)"

definition extractArxivId :: "string \<Rightarrow> jsError + string" where
  "extractArxivId url =
     (case matchFrom url of
        Some r \<Rightarrow> Inr r
      | None \<Rightarrow> Inl (Error (''Failed to extract arXiv ID from: '' @ url)))"

text \<open>
  The words of the specification: an identifier is four digits, a dot and four or five
  digits; a version suffix is a \<open>v\<close> followed by a number; a URL ends in an identifier
  when it is some prefix, the identifier and, optionally, a version suffix.
\<close>

definition isArxivId :: "string \<Rightarrow> bool" where
  "isArxivId i =
     (\<exists>a b. i = a @ ''.'' @ b \<and> length a = 4 \<and> list_all isDigit a \<and>
            (length b = 4 \<or> length b = 5) \<and> list_all isDigit b)"

definition isVersionSuffix :: "string \<Rightarrow> bool" where
  "isVersionSuffix v = (\<exists>ds. v = CHR ''v'' # ds \<and> ds \<noteq> [] \<and> list_all isDigit ds)"

definition endsInArxivId :: "string \<Rightarrow> string \<Rightarrow> bool" where
  "endsInArxivId url i =
     (\<exists>pre v. url = pre @ i @ v \<and> isArxivId i \<and> (v = [] \<or> isVersionSuffix v))"

section \<open>Fetcher and multi-query collector (\<open>scripts/fetch-arxiv.js\<close>)\<close>

text \<open>
  One upstream call, from the rate limiter's wait to the parsed document: the response
  to a query string, a start offset and a page size is either a failure (anything thrown
  inside the \<open>try\<close> block: a network error, a status that is not ok, a document that
  does not parse) or a page with the reported total (\<open>None\<close> when it parses to NaN) and
  the entries. In one run of the loop the offset grows with every call, so no call is
  repeated, and a function of the arguments describes the upstream.
\<close>

datatype 'p response = Failed jsError | Page "int option" "'p list"

type_synonym 'p upstream = "string \<Rightarrow> nat \<Rightarrow> nat \<Rightarrow> 'p response"

definition MAX_RESULTS_PER_REQUEST :: nat where
  "MAX_RESULTS_PER_REQUEST = 100"

text \<open>
  The options of a fetch, after the defaults of the destructuring have been applied (an
  omitted \<open>startDate\<close> is \<open>2020-01-01\<close>, so that \<open>None\<close> is a \<open>null\<close> that the
  caller passed); \<open>maxResults = None\<close> is \<open>Infinity\<close>. The sort field and the sort
  order are part of the upstream.
\<close>

record fetchOptions =
  maxResults :: "nat option"
  startDate :: "string option"
  endDate :: "string option"

text \<open>\<open>allPapers.length < maxResults\<close>.\<close>

definition belowCap :: "nat \<Rightarrow> nat option \<Rightarrow> bool" where
  "belowCap n cap = (case cap of None \<Rightarrow> True | Some m \<Rightarrow> n < m)"

text \<open>\<open>Math.min(MAX_RESULTS_PER_REQUEST, maxResults - allPapers.length)\<close>.\<close>

definition resultsToFetch :: "nat option \<Rightarrow> nat \<Rightarrow> nat" where
  "resultsToFetch cap n =
     (case cap of None \<Rightarrow> MAX_RESULTS_PER_REQUEST
      | Some m \<Rightarrow> min MAX_RESULTS_PER_REQUEST (m - n))"

text \<open>\<open>start >= parsed.totalResults\<close>; false when the total is NaN.\<close>

definition reachedTotal :: "nat \<Rightarrow> int option \<Rightarrow> bool" where
  "reachedTotal start totalResults = (case totalResults of None \<Rightarrow> False | Some t \<Rightarrow> t \<le> int start)"

text \<open>
  The query of each page: the base query and the date range. \<open>today\<close> is
  \<open>new Date().toISOString().slice(0, 10)\<close>; an option that is absent or the empty
  string is falsy.
\<close>

definition truthy :: "string option \<Rightarrow> bool" where
  "truthy s = (case s of None \<Rightarrow> False | Some v \<Rightarrow> v \<noteq> [])"

definition stripDashes :: "string \<Rightarrow> string" where
  "stripDashes s = filter (\<lambda>c. c \<noteq> CHR ''-'') s"

definition pageQuery :: "string \<Rightarrow> fetchOptions \<Rightarrow> string \<Rightarrow> string" where
  "pageQuery today opts searchQuery =
     (if truthy (startDate opts) \<or> truthy (endDate opts)
      then (let startDateFormatted =
                  (if truthy (startDate opts)
                   then stripDashes (the (startDate opts)) @ ''0000'' else ''20000101000'');
                endDateFormatted =
                  (if truthy (endDate opts)
                   then stripDashes (the (endDate opts)) @ ''2359''
                   else stripDashes today @ ''2359'')
            in ''('' @ searchQuery @ '') AND submittedDate:['' @ startDateFormatted @
               '' TO '' @ endDateFormatted @ '']'')
      else searchQuery)"

text \<open>
  The pagination loop on the state \<open>(allPapers, start)\<close>. The loop ends when
  \<open>hasMore\<close> is cleared or the cap is reached, and it may run for ever against an
  upstream that never runs dry: the value \<open>None\<close> stands for a loop that does not
  return, \<open>Some (Inl e)\<close> for the error thrown, \<open>Some (Inr ps)\<close> for the papers
  returned.
\<close>

partial_function (option) fetchLoop ::
  "'p upstream \<Rightarrow> string \<Rightarrow> nat option \<Rightarrow> 'p list \<Rightarrow> nat \<Rightarrow> (jsError + 'p list) option"
where
  "fetchLoop up query cap allPapers start =
     (if \<not> belowCap (length allPapers) cap then Some (Inr allPapers)
      else (case up query start (resultsToFetch cap (length allPapers)) of
              Failed e \<Rightarrow> if start = 0 then Some (Inl e) else Some (Inr allPapers)
            | Page totalResults es \<Rightarrow>
                if es = [] then Some (Inr allPapers)
                else if reachedTotal (start + length es) totalResults
                      \<or> length es < resultsToFetch cap (length allPapers)
                      \<or> \<not> belowCap (length (allPapers @ es)) cap
                then Some (Inr (allPapers @ es))
                else fetchLoop up query cap (allPapers @ es) (start + length es)))"

definition fetchPapersForQuery ::
  "'p upstream \<Rightarrow> string \<Rightarrow> string \<Rightarrow> fetchOptions \<Rightarrow> (jsError + 'p list) option"
where
  "fetchPapersForQuery up today searchQuery opts =
     fetchLoop up (pageQuery today opts searchQuery) (maxResults opts) [] 0"

text \<open>An entry of \<open>SEARCH_QUERIES\<close>; the description and the category are only printed.\<close>

record searchQuery =
  query :: string
  description :: string
  category :: string

text \<open>The inner loop of the collector, on the state \<open>(allPapers, seenIds)\<close>.\<close>

definition addUnseen ::
  "'a paper_scheme list \<times> string set \<Rightarrow> 'a paper_scheme \<Rightarrow> 'a paper_scheme list \<times> string set"
where
  "addUnseen st paper =
     (case st of (allPapers, seenIds) \<Rightarrow>
        if pid paper \<notin> seenIds then (allPapers @ [paper], insert (pid paper) seenIds)
        else (allPapers, seenIds))"

text \<open>
  The outer loop: a query whose fetch throws is skipped; a fetch that does not return
  keeps the collector from returning.
\<close>

fun collectLoop ::
  "'a paper_scheme upstream \<Rightarrow> string \<Rightarrow> fetchOptions \<Rightarrow>
   'a paper_scheme list \<times> string set \<Rightarrow> searchQuery list \<Rightarrow> 'a paper_scheme list option"
where
  "collectLoop up today opts st [] = Some (fst st)"
| "collectLoop up today opts st (q # qs) =
     (case fetchPapersForQuery up today (query q) opts of
        None \<Rightarrow> None
      | Some (Inl e) \<Rightarrow> collectLoop up today opts st qs
      | Some (Inr papers) \<Rightarrow> collectLoop up today opts (foldl addUnseen st papers) qs)"

definition fetchPapersMultiQuery ::
  "'a paper_scheme upstream \<Rightarrow> string \<Rightarrow> searchQuery list \<Rightarrow> fetchOptions \<Rightarrow>
   'a paper_scheme list option"
where
  "fetchPapersMultiQuery up today queries opts = collectLoop up today opts ([], {}) queries"

text \<open>
  Vocabulary for the claims. The papers that the queries return, in the order met: the
  results of the fetches that returned, one query after the other. \<open>firstSeen\<close> keeps
  the papers whose id is not in a set and was not met before. \<open>served\<close> says that from
  an offset on the upstream answers with the given pages in turn, and that none of them
  ends the pagination: each page is not empty, is not short, does not reach the reported
  total and does not fill the cap.
\<close>

fun encountered ::
  "'a paper_scheme upstream \<Rightarrow> string \<Rightarrow> fetchOptions \<Rightarrow> searchQuery list \<Rightarrow>
   'a paper_scheme list"
where
  "encountered up today opts [] = []"
| "encountered up today opts (q # qs) =
     (case fetchPapersForQuery up today (query q) opts of
        Some (Inr papers) \<Rightarrow> papers @ encountered up today opts qs
      | _ \<Rightarrow> encountered up today opts qs)"

fun firstSeen :: "string set \<Rightarrow> 'a paper_scheme list \<Rightarrow> 'a paper_scheme list" where
  "firstSeen seen [] = []"
| "firstSeen seen (p # ps) =
     (if pid p \<in> seen then firstSeen seen ps else p # firstSeen (insert (pid p) seen) ps)"

fun served ::
  "'p upstream \<Rightarrow> string \<Rightarrow> nat option \<Rightarrow> nat \<Rightarrow> (int option \<times> 'p list) list \<Rightarrow> bool"
where
  "served up q cap start [] = True"
| "served up q cap start (pg # pgs) =
     (up q start (resultsToFetch cap start) = Page (fst pg) (snd pg) \<and>
      snd pg \<noteq> [] \<and>
      \<not> reachedTotal (start + length (snd pg)) (fst pg) \<and>
      resultsToFetch cap start \<le> length (snd pg) \<and>
      belowCap (start + length (snd pg)) cap \<and>
      served up q cap (start + length (snd pg)) pgs)"

section \<open>Batch deduplication (\<open>scripts/utils/deduplicator.js\<close>)\<close>

record duplicate =
  dup_id :: string
  dup_title :: string
  duplicate_of :: string

text \<open>
  One iteration of \<open>deduplicatePapers\<close>, on the state \<open>(seenIds, unique, duplicates)\<close>;
  \<open>seenIds\<close> maps an id to its first occurrence.
\<close>

definition dedupStep ::
  "'a paperMap \<times> 'a paper_scheme list \<times> duplicate list \<Rightarrow> 'a paper_scheme \<Rightarrow>
   'a paperMap \<times> 'a paper_scheme list \<times> duplicate list"
where
  "dedupStep st paper =
     (case st of (seenIds, unique, duplicates) \<Rightarrow>
        (case map_of seenIds (pid paper) of
           None \<Rightarrow> (AList.update (pid paper) paper seenIds, unique @ [paper], duplicates)
         | Some first \<Rightarrow>
             (seenIds, unique,
              duplicates @ [\<lparr> dup_id = pid paper, dup_title = title paper,
                              duplicate_of = title first \<rparr>])))"

definition deduplicatePapers ::
  "'a paper_scheme list \<Rightarrow> 'a paper_scheme list \<times> duplicate list"
where
  "deduplicatePapers papers = snd (foldl dedupStep ([], [], []) papers)"

section \<open>Year store and update run (\<open>scripts/update-incremental.js\<close>)\<close>

text \<open>
  The year of a paper, \<open>parseInt(paper.publishedDate.substring(0, 4))\<close>; \<open>None\<close> is
  NaN.
\<close>

definition yearOf :: "'a paper_scheme \<Rightarrow> int option" where
  "yearOf paper = parseInt (take 4 (publishedDate paper))"

text \<open>
  The directory of partitions: the file \<open><year>.json\<close> holds the papers of a year (its
  \<open>count\<close> is their number). \<open>loadYearPapers\<close> gives the empty sequence for a file
  that does not exist; \<open>saveYearPapers\<close> writes the file, replacing its content.
\<close>

type_synonym 'a yearStore = "(int option \<times> 'a paper_scheme list) list"

definition loadYearPapers :: "'a yearStore \<Rightarrow> int option \<Rightarrow> 'a paper_scheme list" where
  "loadYearPapers store year = (case map_of store year of None \<Rightarrow> [] | Some papers \<Rightarrow> papers)"

definition saveYearPapers ::
  "'a yearStore \<Rightarrow> int option \<Rightarrow> 'a paper_scheme list \<Rightarrow> 'a yearStore"
where
  "saveYearPapers store year papers = AList.update year papers store"

text \<open>\<open>loadAllPapers\<close> of \<open>build-index.js\<close>: the papers of all the files, concatenated.\<close>

definition loadAllPapers :: "'a yearStore \<Rightarrow> 'a paper_scheme list" where
  "loadAllPapers store = concat (map snd store)"

text \<open>
  \<open>organizePapersByYear\<close>. The object \<open>papersByYear\<close> is a list of years with their
  papers, like the directory; \<open>papersByYear[year]\<close> is read with \<open>loadYearPapers\<close>,
  which gives the empty sequence for a year that is not a key (the code starts such a
  year with \<open>[]\<close>, and reads only years that are keys afterwards).
\<close>

definition organizePapersByYear :: "'a paper_scheme list \<Rightarrow> 'a yearStore" where
  "organizePapersByYear papers =
     foldl (\<lambda>papersByYear paper.
              AList.update (yearOf paper) (loadYearPapers papersByYear (yearOf paper) @ [paper])
                papersByYear)
       [] papers"

text \<open>
  One run of \<open>updateIncremental\<close> from the fetched papers on: nothing is written for an
  empty fetch; otherwise the papers are categorized, deduplicated and grouped by year,
  and each year, in descending order, is merged into its partition and saved. (The
  \<open>fetchedAt\<close> stamp is in the extension part of the record.)
\<close>

definition mergeYear ::
  "dateParser \<Rightarrow> 'a yearStore \<Rightarrow> 'a yearStore \<Rightarrow> int option \<Rightarrow> 'a yearStore"
where
  "mergeYear dp papersByYear store year =
     (let newPapers = loadYearPapers papersByYear year;
          existingPapers = loadYearPapers store year;
          mergeResult = mergePapers dp existingPapers newPapers
      in saveYearPapers store year (merged mergeResult))"

definition updateIncremental ::
  "dateParser \<Rightarrow> 'c categoryDef_scheme list \<Rightarrow> 'a yearStore \<Rightarrow> 'a paper_scheme list \<Rightarrow>
   'a yearStore"
where
  "updateIncremental dp cats store papers =
     (if papers = [] then store
      else (let categorizedPapers = categorizePapers papers cats;
                unique = fst (deduplicatePapers categorizedPapers);
                papersByYear = organizePapersByYear unique;
                years = jsSort (\<lambda>a b. jsMinus b a) (map fst papersByYear)
            in foldl (mergeYear dp papersByYear) store years))"

text \<open>
  A sequence of runs, each with the category definitions of its day and the papers it
  fetched.
\<close>

definition runUpdates ::
  "dateParser \<Rightarrow> 'a yearStore \<Rightarrow> ('c categoryDef_scheme list \<times> 'a paper_scheme list) list \<Rightarrow>
   'a yearStore"
where
  "runUpdates dp store runs =
     foldl (\<lambda>st run. updateIncremental dp (fst run) st (snd run)) store runs"

text \<open>
  Vocabulary for the claims: the invariant of the store (the years of the files are
  distinct; a partition holds one record per id, each published in the partition's
  year), and the provenance of its records (each has the id and the year of a fetched
  paper).
\<close>

definition partitionOK :: "int option \<times> 'a paper_scheme list \<Rightarrow> bool" where
  "partitionOK part =
     (distinct (map pid (snd part)) \<and> list_all (\<lambda>p. yearOf p = fst part) (snd part))"

definition storeOK :: "'a yearStore \<Rightarrow> bool" where
  "storeOK store = (distinct (map fst store) \<and> list_all partitionOK store)"

definition traced :: "'a paper_scheme set \<Rightarrow> 'a paper_scheme list \<Rightarrow> bool" where
  "traced fetched records =
     list_all (\<lambda>r. \<exists>p\<in>fetched. pid p = pid r \<and> yearOf p = yearOf r) records"

section \<open>Index builder (\<open>scripts/build-index.js\<close>)\<close>

record indexEntry =
  ix_id :: string
  ix_title :: string
  ix_authors :: "string list"
  ix_abstract :: string
  ix_publishedDate :: string
  ix_arxivUrl :: string
  ix_categories :: "string list"
  ix_year :: "int option"

record indexMeta =
  lastUpdated :: string
  totalPapers :: nat
  metaCategories :: "string list"
  metaYears :: "int option list"

record index =
  ix_meta :: indexMeta
  ix_papers :: "indexEntry list"

text \<open>The projection of a paper to its index entry.\<close>

definition indexEntryOf :: "'a paper_scheme \<Rightarrow> indexEntry" where
  "indexEntryOf paper =
     \<lparr> ix_id = pid paper,
       ix_title = title paper,
       ix_authors = map name (authors paper),
       ix_abstract = abstract paper,
       ix_publishedDate = publishedDate paper,
       ix_arxivUrl = (if truthy (arxivUrl paper) then the (arxivUrl paper)
                      else ''https://arxiv.org/abs/'' @ pid paper),
       ix_categories = (case categories paper of None \<Rightarrow> [] | Some c \<Rightarrow> c),
       ix_year = yearOf paper \<rparr>"

text \<open>
  \<open>buildIndex\<close>; \<open>now\<close> is \<open>new Date().toISOString()\<close>. The category ids are sorted by
  the default order of \<open>sort()\<close>, which compares strings character by character.
\<close>

definition buildIndex ::
  "dateParser \<Rightarrow> string \<Rightarrow> 'a paper_scheme list \<Rightarrow> string set \<Rightarrow> index"
where
  "buildIndex dp now papers blocklist =
     (let indexPapers =
            jsSort (\<lambda>a b. jsMinus (dp (ix_publishedDate b)) (dp (ix_publishedDate a)))
              (map indexEntryOf (filter (\<lambda>paper. pid paper \<notin> blocklist) papers));
          years = jsSort (\<lambda>a b. jsMinus b a) (uniq (map ix_year indexPapers));
          categoriesSet = uniq (concat (map ix_categories indexPapers))
      in \<lparr> ix_meta = \<lparr> lastUpdated = now,
                        totalPapers = length indexPapers,
                        metaCategories = sort categoriesSet,
                        metaYears = years \<rparr>,
           ix_papers = indexPapers \<rparr>)"

section \<open>Example data\<close>

text \<open>
  The time values, in milliseconds, that \<open>new Date\<close> gives for the ISO timestamps used
  in the examples; any other string is an Invalid Date here.
\<close>

definition sampleDates :: dateParser where
  "sampleDates =
     map_of [(''2023-11-20T00:00:00Z'', 1700438400000),
             (''2024-01-10T00:00:00Z'', 1704844800000),
             (''2024-02-01T00:00:00Z'', 1706745600000),
             (''2024-03-05T00:00:00Z'', 1709596800000)]"

text \<open>
  Paper X of the specification's scenario: curated by hand as \<open>agents\<close>, then fetched
  again in a newer revision that the categorizer labels \<open>reasoning\<close>.
\<close>

definition paperX :: paper where
  "paperX = \<lparr> pid = ''2401.00001'', title = ''Agents at work'', authors = [],
      abstract = ''A study of agents.'', publishedDate = ''2024-01-10T00:00:00Z'',
      updatedDate = Some ''2024-01-10T00:00:00Z'', arxivUrl = None,
      categories = Some [''agents''],
      tags = Some \<lparr> auto = Some [''agents''], manual = Some [''agents''] \<rparr> \<rparr>"

definition paperX2 :: paper where
  "paperX2 = \<lparr> pid = ''2401.00001'', title = ''Agents at work, revised'', authors = [],
      abstract = ''A study of reasoning.'', publishedDate = ''2024-01-10T00:00:00Z'',
      updatedDate = Some ''2024-03-05T00:00:00Z'', arxivUrl = None,
      categories = Some [''reasoning''],
      tags = Some \<lparr> auto = Some [''reasoning''], manual = Some [] \<rparr> \<rparr>"

text \<open>
  Paper Y matched no keyword when it was first fetched, so that \<open>categorizePapers\<close> gave
  it the empty array of categories; its newer revision is labelled \<open>reasoning\<close>.
\<close>

definition paperY :: paper where
  "paperY = \<lparr> pid = ''2402.00002'', title = ''Untitled draft'', authors = [],
      abstract = ''Nothing yet.'', publishedDate = ''2024-02-01T00:00:00Z'',
      updatedDate = Some ''2024-02-01T00:00:00Z'', arxivUrl = None,
      categories = Some [],
      tags = Some \<lparr> auto = Some [], manual = Some [] \<rparr> \<rparr>"

definition paperY2 :: paper where
  "paperY2 = \<lparr> pid = ''2402.00002'', title = ''Reasoning in chains'', authors = [],
      abstract = ''Now about reasoning.'', publishedDate = ''2024-02-01T00:00:00Z'',
      updatedDate = Some ''2024-03-05T00:00:00Z'', arxivUrl = None,
      categories = Some [''reasoning''],
      tags = Some \<lparr> auto = Some [''reasoning''], manual = Some [] \<rparr> \<rparr>"

text \<open>Paper Z is only in the incoming batch.\<close>

definition paperZ :: paper where
  "paperZ = \<lparr> pid = ''2403.00003'', title = ''Tools for models'', authors = [],
      abstract = ''Tool use.'', publishedDate = ''2024-03-05T00:00:00Z'',
      updatedDate = Some ''2024-03-05T00:00:00Z'', arxivUrl = None,
      categories = Some [''tool-use''],
      tags = Some \<lparr> auto = Some [''tool-use''], manual = Some [] \<rparr> \<rparr>"

text \<open>Category definitions and a paper for the categorizer.\<close>

definition sampleCategories :: "categoryDef list" where
  "sampleCategories =
     [\<lparr> cid = ''agents'', keywordsOf = [''agent'', ''multi-agent''] \<rparr>,
      \<lparr> cid = ''reasoning'', keywordsOf = [''Reason'', ''chain of thought''] \<rparr>,
      \<lparr> cid = ''rag'', keywordsOf = [''retrieval''] \<rparr>,
      \<lparr> cid = ''tool-use'', keywordsOf = [''tool'', ''THOUGHT''] \<rparr>]"

definition paperQ :: paper where
  "paperQ = \<lparr> pid = ''2404.00004'', title = ''Chain of Thought'', authors = [],
      abstract = ''An AGENT reasons.'', publishedDate = ''2024-03-05T00:00:00Z'',
      updatedDate = Some ''2024-03-05T00:00:00Z'', arxivUrl = None,
      categories = None, tags = None \<rparr>"

text \<open>
  Upstreams for the fetcher. The first one is down. The second one serves one full page
  of a hundred entries out of 250 (the entries are numbers here) and fails from then on.
\<close>

definition downUpstream :: "nat upstream" where
  "downUpstream q start n = Failed (Error ''HTTP 503: Service Unavailable'')"

definition flakyUpstream :: "nat upstream" where
  "flakyUpstream q start n =
     (if start = 0 then Page (Some 250) [0..<100]
      else Failed (Error ''HTTP 503: Service Unavailable''))"

definition sinceTwenty :: fetchOptions where
  "sinceTwenty = \<lparr> maxResults = None, startDate = Some ''2020-01-01'', endDate = None \<rparr>"

text \<open>
  The scenario of the specification for the collector: the first query returns the
  papers X and Y, the last one returns a paper with the id of Y and the paper Z; the
  query between them fails.
\<close>

definition noDates :: fetchOptions where
  "noDates = \<lparr> maxResults = None, startDate = None, endDate = None \<rparr>"

definition twoQueryUpstream :: "paper upstream" where
  "twoQueryUpstream q start n =
     (if q = ''Q1'' then Page (Some 2) [paperX, paperY]
      else if q = ''Q2'' then Page (Some 2) [paperY2, paperZ]
      else Failed (Error ''HTTP 400: Bad Request''))"

definition sampleQueries :: "searchQuery list" where
  "sampleQueries =
     [\<lparr> query = ''Q1'', description = ''first'', category = ''agents'' \<rparr>,
      \<lparr> query = ''bad'', description = ''broken'', category = ''rag'' \<rparr>,
      \<lparr> query = ''Q2'', description = ''second'', category = ''reasoning'' \<rparr>]"

text \<open>
  The scenario of the specification for the index: the partition of 2023 holds one
  paper, which is blocked, and the partition of 2024 holds the papers X and Z.
\<close>

definition paperP1 :: paper where
  "paperP1 = \<lparr> pid = ''2311.00009'', title = ''Withdrawn'', authors = [],
      abstract = ''Off topic.'', publishedDate = ''2023-11-20T00:00:00Z'',
      updatedDate = Some ''2023-11-20T00:00:00Z'', arxivUrl = None,
      categories = Some [''rag''],
      tags = Some \<lparr> auto = Some [''rag''], manual = Some [] \<rparr> \<rparr>"

definition sampleStore :: "unit yearStore" where
  "sampleStore = [(Some 2023, [paperP1]), (Some 2024, [paperX, paperZ])]"

text \<open>
  Runs of the update. Paper W is fetched in two runs, the second time with a publication
  date in the next year.
\<close>

definition agentsOnly :: "categoryDef list" where
  "agentsOnly = [\<lparr> cid = ''agents'', keywordsOf = [''agent''] \<rparr>]"

definition paperW :: paper where
  "paperW = \<lparr> pid = ''2312.00007'', title = ''Year end'', authors = [],
      abstract = ''An agent.'', publishedDate = ''2023-12-31T23:50:00Z'',
      updatedDate = Some ''2023-12-31T23:50:00Z'', arxivUrl = None,
      categories = None, tags = None \<rparr>"

definition paperW2 :: paper where
  "paperW2 = \<lparr> pid = ''2312.00007'', title = ''Year end'', authors = [],
      abstract = ''An agent.'', publishedDate = ''2024-01-01T00:10:00Z'',
      updatedDate = Some ''2024-01-01T00:10:00Z'', arxivUrl = None,
      categories = None, tags = None \<rparr>"

section \<open>Properties of the merger\<close>


lemma wfMap_Nil: "wfMap []" by (simp add: wfMap_def)

lemma list_all_update:
  "list_all P m \<Longrightarrow> P (k, v) \<Longrightarrow> list_all P (AList.update k v m)"
  by (induction m) auto

lemma wfMap_update: "wfMap m \<Longrightarrow> pid v = k \<Longrightarrow> wfMap (AList.update k v m)"
  by (simp add: wfMap_def distinct_update list_all_update)

lemma wfMap_foldl_update:
  "wfMap m \<Longrightarrow> wfMap (foldl (\<lambda>m p. AList.update (pid p) p m) m ps)"
  by (induction ps arbitrary: m) (simp_all add: wfMap_update)

lemma wfMap_loadMap: "wfMap (loadMap ps)"
  by (simp add: loadMap_def wfMap_foldl_update wfMap_Nil)

lemma pid_carryForward: "pid (carryForward e n) = pid n"
  by (simp add: carryForward_def)

lemma revisionDate_carryForward: "revisionDate dp (carryForward e n) = revisionDate dp n"
  by (simp add: carryForward_def revisionDate_def split: option.split)

lemma wfMap_mergeStep: "wfMap m \<Longrightarrow> wfMap (fst (mergeStep dp (m, a, u) n))"
  by (simp add: mergeStep_def wfMap_update pid_carryForward split: option.split)

lemma foldl_update_append:
  "distinct (map fst m @ map pid ps) \<Longrightarrow>
   foldl (\<lambda>m p. AList.update (pid p) p m) m ps = m @ map (\<lambda>p. (pid p, p)) ps"
proof (induction ps arbitrary: m)
  case Nil
  then show ?case by simp
next
  case (Cons p ps)
  have "pid p \<notin> set (map fst m)" using Cons.prems by auto
  then have u: "AList.update (pid p) p m = m @ [(pid p, p)]"
    by (induction m) auto
  have "distinct (map fst (m @ [(pid p, p)]) @ map pid ps)" using Cons.prems by auto
  from Cons.IH [OF this] show ?case by (simp add: u)
qed

lemma loadMap_distinct:
  "distinct (map pid ps) \<Longrightarrow> loadMap ps = map (\<lambda>p. (pid p, p)) ps"
  using foldl_update_append [of "[]" ps] by (simp add: loadMap_def)

lemma loadMap_values: "wfMap m \<Longrightarrow> loadMap (map snd m) = m"
proof -
  assume w: "wfMap m"
  then have k: "map pid (map snd m) = map fst m"
    by (induction m) (auto simp: wfMap_def)
  have "distinct (map fst m)" using w by (simp add: wfMap_def)
  then have "distinct (map pid (map snd m))" by (simp only: k)
  then have "loadMap (map snd m) = map (\<lambda>p. (pid p, p)) (map snd m)" by (rule loadMap_distinct)
  also have "\<dots> = m" using w by (induction m) (auto simp: wfMap_def)
  finally show ?thesis .
qed



lemma jsGt_irrefl: "\<not> jsGt a a"
  by (simp add: jsGt_def split: option.split)

lemma jsGt_chain: "\<not> jsGt a b \<Longrightarrow> jsGt c b \<Longrightarrow> \<not> jsGt a c"
  by (auto simp: jsGt_def split: option.splits)

lemma settled_mergeStep_self: "settled dp (fst (mergeStep dp (m, a, u) n)) n"
  by (simp add: settled_def mergeStep_def update_conv' jsGt_irrefl
      revisionDate_carryForward split: option.split)

lemma settled_mergeStep_other:
  assumes "settled dp m n"
  shows "settled dp (fst (mergeStep dp (m, a, u) k)) n"
proof (cases "pid k = pid n")
  case False
  with assms show ?thesis
    by (auto simp: settled_def mergeStep_def update_conv' split: option.splits)
next
  case True
  from assms obtain s where s: "map_of m (pid n) = Some s"
    and ns: "\<not> jsGt (revisionDate dp n) (revisionDate dp s)"
    by (auto simp: settled_def split: option.splits)
  show ?thesis
  proof (cases "jsGt (revisionDate dp k) (revisionDate dp s)")
    case False
    with True s ns show ?thesis by (simp add: settled_def mergeStep_def)
  next
    case gt: True
    from jsGt_chain [OF ns gt] True s gt show ?thesis
      by (simp add: settled_def mergeStep_def update_conv' revisionDate_carryForward)
  qed
qed

lemma mergeStep_settled: "settled dp m n \<Longrightarrow> mergeStep dp (m, a, u) n = (m, a, u)"
  by (auto simp: settled_def mergeStep_def split: option.splits)

lemma foldl_mergeStep_settled:
  "\<forall>n\<in>set ns. settled dp m n \<Longrightarrow> foldl (mergeStep dp) (m, a, u) ns = (m, a, u)"
  by (induction ns) (simp_all add: mergeStep_settled)

lemma foldl_mergeStep_inv:
  assumes "wfMap m"
  shows "wfMap (fst (foldl (mergeStep dp) (m, a, u) ns)) \<and>
         (\<forall>n\<in>set ns. settled dp (fst (foldl (mergeStep dp) (m, a, u) ns)) n)"
proof (induction ns rule: rev_induct)
  case Nil
  from assms show ?case by simp
next
  case (snoc x xs)
  obtain m' a' u' where st: "foldl (mergeStep dp) (m, a, u) xs = (m', a', u')"
    by (cases "foldl (mergeStep dp) (m, a, u) xs") auto
  with snoc have w: "wfMap m'" and s: "\<forall>n\<in>set xs. settled dp m' n" by auto
  show ?case
    using wfMap_mergeStep [OF w, of dp a' u' x] settled_mergeStep_self [of dp m' a' u' x]
      s settled_mergeStep_other [of dp m' _ a' u' x]
    by (auto simp: st)
qed

lemma merge_twice:
  "mergePapers dp (merged (mergePapers dp ex inc)) inc =
     \<lparr> merged = merged (mergePapers dp ex inc), added = 0, updated = 0 \<rparr>"
proof -
  obtain m a u where st: "foldl (mergeStep dp) (loadMap ex, 0, 0) inc = (m, a, u)"
    by (cases "foldl (mergeStep dp) (loadMap ex, 0, 0) inc") auto
  from foldl_mergeStep_inv [OF wfMap_loadMap, of dp ex 0 0 inc]
  have w: "wfMap m" and s: "\<forall>n\<in>set inc. settled dp m n" by (auto simp: st)
  have r1: "merged (mergePapers dp ex inc) = map snd m" by (simp add: mergePapers_def st)
  show ?thesis
    unfolding r1
    by (simp add: mergePapers_def loadMap_values [OF w] foldl_mergeStep_settled [OF s])
qed



lemma find_absent: "k \<notin> pid ` set ns \<Longrightarrow> find (\<lambda>n. pid n = k) ns = None"
  by (induction ns) auto

lemma revised_absent: "pid e \<notin> pid ` set ns \<Longrightarrow> revised dp ns e = e"
  by (simp add: revised_def find_absent)

lemma revised_skip: "pid n \<noteq> pid e \<Longrightarrow> revised dp (n # ns) e = revised dp ns e"
  by (simp add: revised_def)

lemma revised_hit:
  "pid n = pid e \<Longrightarrow> revised dp (n # ns) e =
     (if jsGt (revisionDate dp n) (revisionDate dp e) then carryForward e n else e)"
  by (simp add: revised_def)

lemma update_fresh: "k \<notin> fst ` set m \<Longrightarrow> AList.update k v m = m @ [(k, v)]"
  by (induction m) auto

lemma update_present:
  "distinct (map fst m) \<Longrightarrow> k \<in> fst ` set m \<Longrightarrow>
   AList.update k v m = map (\<lambda>kv. if fst kv = k then (k, v) else kv) m"
proof (induction m)
  case Nil
  then show ?case by simp
next
  case (Cons p m)
  show ?case
  proof (cases "fst p = k")
    case True
    with Cons.prems have "k \<notin> fst ` set m" by auto
    then have "map (\<lambda>kv. if fst kv = k then (k, v) else kv) m = m"
      by (induction m) auto
    with True show ?thesis by simp
  next
    case False
    with Cons show ?thesis by auto
  qed
qed

lemma map_of_wfMap: "wfMap m \<Longrightarrow> map_of m k = Some e \<Longrightarrow> pid e = k \<and> (k, e) \<in> set m"
  by (auto simp: wfMap_def list_all_iff dest: map_of_SomeD)

lemma foldl_mergeStep_shape:
  "wfMap m \<Longrightarrow> distinct (map pid ns) \<Longrightarrow>
   fst (foldl (mergeStep dp) (m, a, u) ns) =
     map (\<lambda>kv. (fst kv, revised dp ns (snd kv))) m @
     map (\<lambda>n. (pid n, n)) (filter (\<lambda>n. pid n \<notin> fst ` set m) ns)"
proof (induction ns arbitrary: m a u)
  case Nil
  then show ?case by (simp add: revised_def)
next
  case (Cons n ns)
  have fresh: "pid n \<notin> pid ` set ns" and dns: "distinct (map pid ns)"
    using Cons.prems(2) by auto
  have ne: "\<And>x. x \<in> set ns \<Longrightarrow> pid x \<noteq> pid n" using fresh by (metis imageI)
  have keyed: "\<And>kv. kv \<in> set m \<Longrightarrow> pid (snd kv) = fst kv"
    using Cons.prems(1) by (auto simp: wfMap_def list_all_iff)
  show ?case
  proof (cases "map_of m (pid n)")
    case None
    then have nk: "pid n \<notin> fst ` set m" by (simp add: map_of_eq_None_iff)
    let ?m' = "m @ [(pid n, n)]"
    have st: "mergeStep dp (m, a, u) n = (?m', a + 1, u)"
      by (simp add: mergeStep_def None update_fresh [OF nk])
    have w': "wfMap ?m'" using Cons.prems(1) nk by (auto simp: wfMap_def)
    have f: "filter (\<lambda>x. pid x \<notin> fst ` set ?m') ns = filter (\<lambda>x. pid x \<notin> fst ` set m) ns"
      using ne by (intro filter_cong refl) auto
    have g: "map (\<lambda>kv. (fst kv, revised dp (n # ns) (snd kv))) m =
             map (\<lambda>kv. (fst kv, revised dp ns (snd kv))) m"
    proof (intro map_cong refl)
      fix kv assume kv: "kv \<in> set m"
      have "fst kv \<noteq> pid n" using nk kv by (metis imageI)
      with keyed [OF kv] show "(fst kv, revised dp (n # ns) (snd kv)) = (fst kv, revised dp ns (snd kv))"
        by (simp add: revised_skip)
    qed
    have "fst (foldl (mergeStep dp) (m, a, u) (n # ns)) =
            fst (foldl (mergeStep dp) (?m', a + 1, u) ns)"
      by (simp only: foldl_Cons st)
    also have "\<dots> = map (\<lambda>kv. (fst kv, revised dp ns (snd kv))) ?m' @
        map (\<lambda>n. (pid n, n)) (filter (\<lambda>x. pid x \<notin> fst ` set ?m') ns)"
      by (rule Cons.IH [OF w' dns])
    also have "\<dots> = map (\<lambda>kv. (fst kv, revised dp ns (snd kv))) ?m' @
        map (\<lambda>n. (pid n, n)) (filter (\<lambda>x. pid x \<notin> fst ` set m) ns)"
      by (simp only: f)
    also have "\<dots> = map (\<lambda>kv. (fst kv, revised dp (n # ns) (snd kv))) m @
        map (\<lambda>n. (pid n, n)) (filter (\<lambda>x. pid x \<notin> fst ` set m) (n # ns))"
      using nk by (simp add: g revised_absent [OF fresh])
    finally show ?thesis .
  next
    case (Some e0)
    from map_of_wfMap [OF Cons.prems(1) Some]
    have pe: "pid e0 = pid n" and mem: "(pid n, e0) \<in> set m" by auto
    then have ink: "pid n \<in> fst ` set m" by force
    have dm: "distinct (map fst m)" using Cons.prems(1) by (simp add: wfMap_def)
    have uniq: "\<And>kv. kv \<in> set m \<Longrightarrow> fst kv = pid n \<Longrightarrow> snd kv = e0"
      using dm mem by (metis eq_key_imp_eq_value prod.collapse)
    show ?thesis
    proof (cases "jsGt (revisionDate dp n) (revisionDate dp e0)")
      case True
      let ?m' = "map (\<lambda>kv. if fst kv = pid n then (pid n, carryForward e0 n) else kv) m"
      have st: "mergeStep dp (m, a, u) n = (?m', a, u + 1)"
        by (simp add: mergeStep_def Some True update_present [OF dm ink])
      have upd: "AList.update (pid n) (carryForward e0 n) m = ?m'"
        by (rule update_present [OF dm ink])
      then have w': "wfMap ?m'"
        using wfMap_update [OF Cons.prems(1), of "carryForward e0 n" "pid n"]
        by (simp add: pid_carryForward)
      have keys: "fst ` set ?m' = fst ` set m"
      proof -
        have "fst ` set ?m' = {pid n} \<union> fst ` set m"
          by (simp only: upd [symmetric] dom_update)
        with ink show ?thesis by (simp only: insert_absorb insert_is_Un [symmetric])
      qed
      have g: "map (\<lambda>kv. (fst kv, revised dp ns (snd kv))) ?m' =
               map (\<lambda>kv. (fst kv, revised dp (n # ns) (snd kv))) m"
        unfolding map_map
      proof (intro map_cong refl)
        fix kv assume kv: "kv \<in> set m"
        show "((\<lambda>kv. (fst kv, revised dp ns (snd kv))) \<circ>
               (\<lambda>kv. if fst kv = pid n then (pid n, carryForward e0 n) else kv)) kv =
              (fst kv, revised dp (n # ns) (snd kv))"
        proof (cases "fst kv = pid n")
          case k: True
          with uniq [OF kv] have "snd kv = e0" by simp
          with k pe True fresh show ?thesis
            by (simp add: revised_hit revised_absent pid_carryForward)
        next
          case False
          with keyed [OF kv] show ?thesis by (simp add: revised_skip)
        qed
      qed
      have "fst (foldl (mergeStep dp) (m, a, u) (n # ns)) =
              fst (foldl (mergeStep dp) (?m', a, u + 1) ns)"
        by (simp only: foldl_Cons st)
      also have "\<dots> = map (\<lambda>kv. (fst kv, revised dp ns (snd kv))) ?m' @
          map (\<lambda>n. (pid n, n)) (filter (\<lambda>x. pid x \<notin> fst ` set ?m') ns)"
        by (rule Cons.IH [OF w' dns])
      also have "\<dots> = map (\<lambda>kv. (fst kv, revised dp (n # ns) (snd kv))) m @
          map (\<lambda>n. (pid n, n)) (filter (\<lambda>x. pid x \<notin> fst ` set m) ns)"
        by (simp only: keys g)
      also have "\<dots> = map (\<lambda>kv. (fst kv, revised dp (n # ns) (snd kv))) m @
          map (\<lambda>n. (pid n, n)) (filter (\<lambda>x. pid x \<notin> fst ` set m) (n # ns))"
        using ink by simp
      finally show ?thesis .
    next
      case False
      have st: "mergeStep dp (m, a, u) n = (m, a, u)"
        by (simp add: mergeStep_def Some False)
      have g: "map (\<lambda>kv. (fst kv, revised dp (n # ns) (snd kv))) m =
               map (\<lambda>kv. (fst kv, revised dp ns (snd kv))) m"
      proof (intro map_cong refl)
        fix kv assume kv: "kv \<in> set m"
        show "(fst kv, revised dp (n # ns) (snd kv)) = (fst kv, revised dp ns (snd kv))"
        proof (cases "fst kv = pid n")
          case k: True
          with uniq [OF kv] have "snd kv = e0" by simp
          with pe False fresh show ?thesis
            by (simp add: revised_hit revised_absent)
        next
          case nk: False
          with keyed [OF kv] show ?thesis by (simp add: revised_skip)
        qed
      qed
      have "fst (foldl (mergeStep dp) (m, a, u) (n # ns)) =
              fst (foldl (mergeStep dp) (m, a, u) ns)"
        by (simp only: foldl_Cons st)
      also have "\<dots> = map (\<lambda>kv. (fst kv, revised dp ns (snd kv))) m @
          map (\<lambda>n. (pid n, n)) (filter (\<lambda>x. pid x \<notin> fst ` set m) ns)"
        by (rule Cons.IH [OF Cons.prems(1) dns])
      also have "\<dots> = map (\<lambda>kv. (fst kv, revised dp (n # ns) (snd kv))) m @
          map (\<lambda>n. (pid n, n)) (filter (\<lambda>x. pid x \<notin> fst ` set m) (n # ns))"
        using ink by (simp add: g)
      finally show ?thesis .
    qed
  qed
qed

lemma mergePapers_shape:
  assumes "distinct (map pid ex)" "distinct (map pid inc)"
  shows "merged (mergePapers dp ex inc) =
           map (revised dp inc) ex @ filter (\<lambda>n. pid n \<notin> pid ` set ex) inc"
proof -
  have l: "loadMap ex = map (\<lambda>p. (pid p, p)) ex" using assms(1) by (rule loadMap_distinct)
  have w: "wfMap (loadMap ex)" by (rule wfMap_loadMap)
  have k: "fst ` set (loadMap ex) = pid ` set ex" by (force simp: l)
  have "merged (mergePapers dp ex inc) = map snd (fst (foldl (mergeStep dp) (loadMap ex, 0, 0) inc))"
    by (simp add: mergePapers_def split: prod.split)
  also have "\<dots> = map (revised dp inc) ex @ filter (\<lambda>n. pid n \<notin> pid ` set ex) inc"
    unfolding foldl_mergeStep_shape [OF w assms(2)] k
    by (simp add: l comp_def)
  finally show ?thesis .
qed

lemma pid_revised: "pid (revised dp ns e) = pid e"
  by (auto simp: revised_def pid_carryForward find_Some_iff split: option.split)

lemma find_present:
  "distinct (map pid ns) \<Longrightarrow> n \<in> set ns \<Longrightarrow> find (\<lambda>x. pid x = pid n) ns = Some n"
  by (induction ns) (auto simp: image_iff)

lemma filter_own_id:
  "distinct (map pid ps) \<Longrightarrow> e \<in> set ps \<Longrightarrow> filter (\<lambda>x. pid x = pid e) ps = [e]"
proof (induction ps)
  case Nil
  then show ?case by simp
next
  case (Cons p ps)
  show ?case
  proof (cases "e = p")
    case True
    have "filter (\<lambda>x. pid x = pid p) ps = []"
      using Cons.prems(1) by (auto simp: filter_empty_conv image_iff)
    with True show ?thesis by simp
  next
    case False
    with Cons.prems have "e \<in> set ps" and "pid p \<noteq> pid e" by (auto simp: image_iff)
    with Cons show ?thesis by simp
  qed
qed

lemma merged_lookup:
  assumes "distinct (map pid ex)" "distinct (map pid inc)" "e \<in> set ex"
  shows "filter (\<lambda>x. pid x = pid e) (merged (mergePapers dp ex inc)) = [revised dp inc e]"
proof -
  have a: "filter (\<lambda>x. pid x = pid e) (map (revised dp inc) ex) =
           map (revised dp inc) (filter (\<lambda>x. pid x = pid e) ex)"
    by (simp add: filter_map comp_def pid_revised)
  have b: "filter (\<lambda>x. pid x = pid e) (filter (\<lambda>n. pid n \<notin> pid ` set ex) inc) = []"
    using assms(3) by (auto simp: filter_empty_conv)
  show ?thesis
    by (simp only: mergePapers_shape [OF assms(1,2)] filter_append a b
        filter_own_id [OF assms(1,3)] list.map append_Nil2)
qed

lemma revised_newer:
  assumes "distinct (map pid inc)" "n \<in> set inc" "pid n = pid e"
    "jsGt (revisionDate dp n) (revisionDate dp e)"
  shows "revised dp inc e = carryForward e n"
  using find_present [OF assms(1,2)] assms(3,4) by (simp add: revised_def)

text \<open>
  What the code does with the categories of a record that is replaced: the existing
  record's array whenever it has one, empty or not; the incoming record's only when the
  existing record has no \<open>categories\<close> field.
\<close>

lemma merged_categories:
  assumes "distinct (map pid existing)" "distinct (map pid incoming)"
    "e \<in> set existing" "n \<in> set incoming" "pid n = pid e"
    "jsGt (revisionDate dp n) (revisionDate dp e)"
  shows "\<exists>r. filter (\<lambda>x. pid x = pid e) (merged (mergePapers dp existing incoming)) = [r] \<and>
             categories r = (case categories e of Some c \<Rightarrow> Some c | None \<Rightarrow> categories n)"
  by (simp add: merged_lookup [OF assms(1,2,3)] revised_newer [OF assms(2,4,5,6)]
      carryForward_def)

text \<open>
  Claim C1 (idempotence of the merge). For every existing sequence and every incoming
  batch, merging the batch into the result of merging it once gives the same merged
  sequence again, and this second merge reports \<open>added = 0\<close> and \<open>updated = 0\<close>.
  Nothing is assumed of either sequence: ids may repeat, dates may be invalid.
\<close>

theorem mergePapers_idempotent:
  "merged (mergePapers dp (merged (mergePapers dp existing incoming)) incoming) =
     merged (mergePapers dp existing incoming) \<and>
   added (mergePapers dp (merged (mergePapers dp existing incoming)) incoming) = 0 \<and>
   updated (mergePapers dp (merged (mergePapers dp existing incoming)) incoming) = 0"
  by (simp add: merge_twice)

theorem mergePapers_idempotent_witness:
  "merged (mergePapers sampleDates [paperX, paperY] [paperZ, paperX2]) =
     [carryForward paperX paperX2, paperY, paperZ] \<and>
   added (mergePapers sampleDates [paperX, paperY] [paperZ, paperX2]) = 1 \<and>
   updated (mergePapers sampleDates [paperX, paperY] [paperZ, paperX2]) = 1 \<and>
   merged (mergePapers sampleDates
      (merged (mergePapers sampleDates [paperX, paperY] [paperZ, paperX2]))
      [paperZ, paperX2]) = [carryForward paperX paperX2, paperY, paperZ] \<and>
   added (mergePapers sampleDates
      (merged (mergePapers sampleDates [paperX, paperY] [paperZ, paperX2]))
      [paperZ, paperX2]) = 0 \<and>
   updated (mergePapers sampleDates
      (merged (mergePapers sampleDates [paperX, paperY] [paperZ, paperX2]))
      [paperZ, paperX2]) = 0"
proof -
  have first: "mergePapers sampleDates [paperX, paperY] [paperZ, paperX2] =
      \<lparr> merged = [carryForward paperX paperX2, paperY, paperZ], added = 1, updated = 1 \<rparr>"
    by (simp add: mergePapers_def loadMap_def mergeStep_def revisionDate_def jsGt_def
        sampleDates_def paperX_def paperY_def paperZ_def paperX2_def)
  show ?thesis
    using mergePapers_idempotent [of sampleDates "[paperX, paperY]" "[paperZ, paperX2]"]
    by (simp add: first)
qed

text \<open>
  Claim C2 (manual-tag preservation). The store holds one record per id and the
  deduplicated batch holds one record per id. Let \<open>e\<close> be an existing record whose
  \<open>tags.manual\<close> is a non-empty array \<open>ms\<close> and whose categories are \<open>cs\<close>, and let
  \<open>n\<close> be the incoming record with the same id, strictly newer by revision date
  (\<open>updatedDate\<close>, else \<open>publishedDate\<close>), carrying the freshly computed labels
  \<open>fresh\<close> in \<open>tags.auto\<close>. Then the merged sequence has exactly one record with that
  id; its \<open>tags.manual\<close> is \<open>ms\<close>, its categories are \<open>cs\<close> and its \<open>tags.auto\<close>
  is \<open>fresh\<close>.
\<close>

theorem manual_tags_preserved:
  assumes "distinct (map pid existing)" and "distinct (map pid incoming)"
    and "e \<in> set existing" and "n \<in> set incoming" and "pid n = pid e"
    and "jsGt (revisionDate dp n) (revisionDate dp e)"
    and "tags e = Some te" and "manual te = Some ms" and "ms \<noteq> []"
    and "categories e = Some cs"
    and "tags n = Some tn" and "auto tn = Some fresh"
  shows "\<exists>r. filter (\<lambda>x. pid x = pid e) (merged (mergePapers dp existing incoming)) = [r] \<and>
             Option.bind (tags r) manual = Some ms \<and>
             categories r = Some cs \<and>
             Option.bind (tags r) auto = Some fresh"
  using assms(7,8,10,11,12)
  by (simp add: merged_lookup [OF assms(1,2,3)] revised_newer [OF assms(2,4,5,6)]
      carryForward_def)

theorem manual_tags_preserved_witness:
  "\<exists>r. filter (\<lambda>x. pid x = pid paperX)
          (merged (mergePapers sampleDates [paperX, paperY] [paperZ, paperX2])) = [r] \<and>
       Option.bind (tags r) manual = Some [''agents''] \<and>
       categories r = Some [''agents''] \<and>
       Option.bind (tags r) auto = Some [''reasoning'']"
proof -
  have d1: "distinct (map pid [paperX, paperY])"
    and d2: "distinct (map pid [paperZ, paperX2])"
    and same: "pid paperX2 = pid paperX"
    by (simp_all add: paperX_def paperY_def paperZ_def paperX2_def)
  have newer: "jsGt (revisionDate sampleDates paperX2) (revisionDate sampleDates paperX)"
    by (simp add: revisionDate_def jsGt_def sampleDates_def paperX_def paperX2_def)
  have te: "tags paperX = Some \<lparr> auto = Some [''agents''], manual = Some [''agents''] \<rparr>"
    and cs: "categories paperX = Some [''agents'']"
    by (simp_all add: paperX_def)
  have tn: "tags paperX2 = Some \<lparr> auto = Some [''reasoning''], manual = Some [] \<rparr>"
    by (simp add: paperX2_def)
  show ?thesis
    using manual_tags_preserved [OF d1 d2 _ _ same newer te _ _ cs tn,
        of "[''agents'']" "[''reasoning'']"]
    by simp
qed

text \<open>
  Claim C4 (incoming categories win when the existing record has none). The code at the
  input the claim speaks of: paper Y is stored with the empty array of categories, its
  strictly newer revision arrives with the categories \<open>reasoning\<close>, and the merged
  record keeps the empty array, since \<open>existing.categories || newPaper.categories\<close>
  takes an empty array for truthy. The freshly computed label reaches \<open>tags.auto\<close> only.
\<close>

theorem empty_categories_not_replaced:
  "categories paperY = Some [] \<and>
   pid paperY2 = pid paperY \<and>
   jsGt (revisionDate sampleDates paperY2) (revisionDate sampleDates paperY) \<and>
   categories paperY2 = Some [''reasoning''] \<and>
   map categories (merged (mergePapers sampleDates [paperY] [paperY2])) = [Some []] \<and>
   map (\<lambda>r. Option.bind (tags r) auto) (merged (mergePapers sampleDates [paperY] [paperY2])) =
     [Some [''reasoning'']] \<and>
   updated (mergePapers sampleDates [paperY] [paperY2]) = 1"
  by (simp add: mergePapers_def loadMap_def mergeStep_def carryForward_def revisionDate_def
      jsGt_def sampleDates_def paperY_def paperY2_def)

text \<open>
  Claim C10 (the merge preserves the order of the sequences). When the existing
  sequence has pairwise distinct ids and the incoming batch has pairwise distinct ids,
  the merged sequence is the existing sequence in its order, each record either
  unchanged or replaced in place by its updated version (when the incoming record of the
  same id is strictly newer), followed by the incoming records whose id is new, in the
  order of the batch.
\<close>

theorem mergePapers_order:
  assumes "distinct (map pid existing)" and "distinct (map pid incoming)"
  shows "merged (mergePapers dp existing incoming) =
           map (\<lambda>e. case find (\<lambda>n. pid n = pid e) incoming of
                       None \<Rightarrow> e
                     | Some n \<Rightarrow>
                         if jsGt (revisionDate dp n) (revisionDate dp e)
                         then carryForward e n else e) existing @
           filter (\<lambda>n. pid n \<notin> pid ` set existing) incoming"
proof -
  have "revised dp incoming =
          (\<lambda>e. case find (\<lambda>n. pid n = pid e) incoming of
                  None \<Rightarrow> e
                | Some n \<Rightarrow>
                    if jsGt (revisionDate dp n) (revisionDate dp e)
                    then carryForward e n else e)"
    by (rule ext) (simp add: revised_def)
  then show ?thesis using mergePapers_shape [OF assms, of dp] by simp
qed

theorem mergePapers_order_witness:
  "distinct (map pid [paperY, paperX]) \<and> distinct (map pid [paperZ, paperX2, paperY]) \<and>
   merged (mergePapers sampleDates [paperY, paperX] [paperZ, paperX2, paperY]) =
     [paperY, carryForward paperX paperX2, paperZ]"
proof -
  have d1: "distinct (map pid [paperY, paperX])"
    and d2: "distinct (map pid [paperZ, paperX2, paperY])"
    by (simp_all add: paperX_def paperY_def paperZ_def paperX2_def)
  show ?thesis
    using mergePapers_order [OF d1 d2, of sampleDates] d1 d2
    by (simp add: revisionDate_def jsGt_def sampleDates_def
        paperX_def paperY_def paperZ_def paperX2_def)
qed

section \<open>Properties of the categorizer\<close>

lemma includesStr_sublist: "includesStr t k \<longleftrightarrow> sublist k t"
  by (induction t) (auto simp: sublist_Cons_right)

lemma sublist_map_iff:
  "sublist (map f k) (map f t) \<longleftrightarrow> (\<exists>s. sublist s t \<and> map f s = map f k)"
proof
  assume "sublist (map f k) (map f t)"
  then obtain ps ss where "map f t = ps @ map f k @ ss" by (auto simp: sublist_def)
  then obtain a b c where "t = a @ b @ c" and "map f b = map f k"
    by (auto simp: map_eq_append_conv append_eq_map_conv)
  then show "\<exists>s. sublist s t \<and> map f s = map f k" by (auto simp: sublist_def)
next
  assume "\<exists>s. sublist s t \<and> map f s = map f k"
  then obtain s ps ss where "t = ps @ s @ ss" and "map f s = map f k"
    by (auto simp: sublist_def)
  then have "map f t = map f ps @ map f k @ map f ss" by simp
  then show "sublist (map f k) (map f t)" unfolding sublist_def by blast
qed

lemma includesStr_lower:
  "includesStr (toLowerCase t) (toLowerCase k) \<longleftrightarrow> occursIgnoringCase k t"
  by (simp add: includesStr_sublist toLowerCase_def occursIgnoringCase_def sublist_map_iff)

lemma matchCount_hits:
  "matchCount (toLowerCase (title paper @ '' '' @ abstract paper)) c = keywordHits paper c"
  by (simp add: matchCount_def keywordHits_def includesStr_lower)

lemma hits_positive:
  "MIN_KEYWORD_MATCHES \<le> keywordHits paper c \<longleftrightarrow>
     (\<exists>k\<in>set (keywordsOf c). occursIgnoringCase k (title paper @ '' '' @ abstract paper))"
  by (auto simp: MIN_KEYWORD_MATCHES_def keywordHits_def Suc_le_eq filter_empty_conv)

lemma insertBy_map_key:
  assumes "\<And>x y. jsPositive (cmp (g x) (g y)) \<longleftrightarrow> \<not> f x \<le> f y"
  shows "insertBy cmp (g x) (map g ys) = map g (insort_key f x ys)"
  by (induction ys) (auto simp: assms)

lemma jsSort_map_key:
  assumes "\<And>x y. jsPositive (cmp (g x) (g y)) \<longleftrightarrow> \<not> (f x :: 'k :: linorder) \<le> f y"
  shows "jsSort cmp (map g xs) = map g (sort_key f xs)"
proof -
  have "foldr (insertBy cmp) (map g xs) [] = map g (foldr (insort_key f) xs [])"
    by (induction xs) (simp_all add: insertBy_map_key [of cmp g f, OF assms])
  then show ?thesis by (simp add: jsSort_def sort_key_def)
qed

lemma categorizePaper_sort_key:
  "categorizePaper paper cats =
     map cid (sort_key (\<lambda>c. - int (keywordHits paper c))
                (filter (\<lambda>c. MIN_KEYWORD_MATCHES \<le> keywordHits paper c) cats))"
proof -
  let ?text = "toLowerCase (title paper @ '' '' @ abstract paper)"
  let ?g = "\<lambda>c. \<lparr> mid = cid c, matches = keywordHits paper c \<rparr>"
  let ?cmp = "\<lambda>a b. Some (int (matches b) - int (matches a))"
  have s: "jsSort ?cmp (map ?g xs) = map ?g (sort_key (\<lambda>c. - int (keywordHits paper c)) xs)" for xs :: "'c categoryDef_scheme list"
    by (rule jsSort_map_key) (auto simp: jsPositive_def)
  show ?thesis
    unfolding categorizePaper_def Let_def matchCount_hits s
    by (simp add: comp_def)
qed

text \<open>
  Claim C5 (characterization of the categorizer). For every paper and every ordered
  list of category definitions, the ids that \<open>categorizePaper\<close> returns are the ids of a
  list \<open>ms\<close> of definitions such that: \<open>ms\<close> holds exactly the definitions with at
  least one keyword occurring, case-insensitively and as a substring, in the title
  joined with the abstract by a space (a definition none of whose keywords occurs is not
  in it); \<open>ms\<close> is ordered by descending count of occurring keywords; and the
  definitions with the same count stand in \<open>ms\<close> in the order of the definitions.
\<close>

theorem categorizePaper_characterization:
  "\<exists>ms. categorizePaper paper cats = map cid ms \<and>
        set ms = {c \<in> set cats. \<exists>k\<in>set (keywordsOf c).
                    occursIgnoringCase k (title paper @ '' '' @ abstract paper)} \<and>
        sorted_wrt (\<lambda>a b. keywordHits paper b \<le> keywordHits paper a) ms \<and>
        (\<forall>h>0. filter (\<lambda>c. keywordHits paper c = h) ms =
                filter (\<lambda>c. keywordHits paper c = h) cats)"
proof -
  let ?f = "\<lambda>c. - int (keywordHits paper c)"
  let ?matched = "filter (\<lambda>c. MIN_KEYWORD_MATCHES \<le> keywordHits paper c) cats"
  let ?ms = "sort_key ?f ?matched"
  have a: "categorizePaper paper cats = map cid ?ms" by (rule categorizePaper_sort_key)
  have b: "set ?ms = {c \<in> set cats. \<exists>k\<in>set (keywordsOf c).
                    occursIgnoringCase k (title paper @ '' '' @ abstract paper)}"
    by (auto simp: hits_positive)
  have "sorted (map ?f ?ms)" by (rule sorted_sort_key)
  then have c: "sorted_wrt (\<lambda>a b. keywordHits paper b \<le> keywordHits paper a) ?ms"
    by (simp add: sorted_map)
  have d: "filter (\<lambda>c. keywordHits paper c = h) ?ms =
           filter (\<lambda>c. keywordHits paper c = h) cats" if "0 < h" for h
  proof -
    have "filter (\<lambda>c. keywordHits paper c = h) ?ms =
          filter (\<lambda>c. keywordHits paper c = h) ?matched"
      using sort_key_stable [of ?f "- int h" ?matched] by simp
    also have "\<dots> = filter (\<lambda>c. keywordHits paper c = h) cats"
      using that by (auto simp: MIN_KEYWORD_MATCHES_def intro: filter_cong)
    finally show ?thesis .
  qed
  show ?thesis using a b c d by blast
qed

theorem categorizePaper_characterization_witness:
  "categorizePaper paperQ sampleCategories = [''reasoning'', ''agents'', ''tool-use''] \<and>
   (\<exists>ms. [''reasoning'', ''agents'', ''tool-use''] = map cid ms \<and>
        set ms = {c \<in> set sampleCategories. \<exists>k\<in>set (keywordsOf c).
                    occursIgnoringCase k (title paperQ @ '' '' @ abstract paperQ)} \<and>
        sorted_wrt (\<lambda>a b. keywordHits paperQ b \<le> keywordHits paperQ a) ms \<and>
        (\<forall>h>0. filter (\<lambda>c. keywordHits paperQ c = h) ms =
                filter (\<lambda>c. keywordHits paperQ c = h) sampleCategories))"
proof -
  have ev: "categorizePaper paperQ sampleCategories = [''reasoning'', ''agents'', ''tool-use'']"
    by code_simp
  show ?thesis
    using categorizePaper_characterization [of paperQ sampleCategories]
    unfolding ev by simp
qed

section \<open>Properties of the identifier extraction\<close>

lemma not_digit_v: "\<not> isDigit CHR ''v''" and not_digit_dot: "\<not> isDigit CHR ''.''"
  by (simp_all add: isDigit_def)

lemma matchTail_iff: "matchTail t \<longleftrightarrow> t = [] \<or> isVersionSuffix t"
  by (cases t) (auto simp: matchTail_def isVersionSuffix_def)

lemma matchTail_no_digits: "matchTail t \<Longrightarrow> takeWhile isDigit t = []"
  by (cases t) (auto simp: matchTail_def not_digit_v)

lemma matchTail_no_dot: "matchTail t \<Longrightarrow> CHR ''.'' \<notin> set t"
  by (cases t) (auto simp: matchTail_def list_all_iff not_digit_dot)

lemma matchAt_sound:
  assumes "matchAt s = Some r"
  shows "\<exists>v. s = r @ v \<and> isArxivId r \<and> matchTail v"
proof -
  from assms have len: "5 \<le> length s" and da: "list_all isDigit (take 4 s)"
    and dot: "s ! 4 = CHR ''.''"
    by (auto simp: matchAt_def split: if_splits)
  have s: "s = take 4 s @ CHR ''.'' # drop 5 s"
    using id_take_nth_drop [of 4 s] len dot by simp
  let ?rest = "drop 5 s"
  consider (five) "5 \<le> length ?rest" "list_all isDigit (take 5 ?rest)" "matchTail (drop 5 ?rest)"
      "r = take 4 s @ ''.'' @ take 5 ?rest"
    | (four) "4 \<le> length ?rest" "list_all isDigit (take 4 ?rest)" "matchTail (drop 4 ?rest)"
      "r = take 4 s @ ''.'' @ take 4 ?rest"
    using assms len da dot by (auto simp: matchAt_def Let_def split: if_splits)
  then show ?thesis
  proof cases
    case five
    have "s = r @ drop 5 ?rest"
      unfolding five(4) using s append_take_drop_id [of 5 ?rest] by (metis append.assoc append_Cons append_Nil)
    moreover have "isArxivId r"
      unfolding isArxivId_def five(4) using len da five(1,2)
      by (intro exI [of _ "take 4 s"] exI [of _ "take 5 ?rest"]) auto
    ultimately show ?thesis using five(3) by blast
  next
    case four
    have "s = r @ drop 4 ?rest"
      unfolding four(4) using s append_take_drop_id [of 4 ?rest] by (metis append.assoc append_Cons append_Nil)
    moreover have "isArxivId r"
      unfolding isArxivId_def four(4) using len da four(1,2)
      by (intro exI [of _ "take 4 s"] exI [of _ "take 4 ?rest"]) auto
    ultimately show ?thesis using four(3) by blast
  qed
qed

lemma matchAt_complete:
  assumes "isArxivId r" "matchTail v"
  shows "matchAt (r @ v) = Some r"
proof -
  from assms(1) obtain a b where r: "r = a @ ''.'' @ b" and la: "length a = 4"
    and da: "list_all isDigit a" and lb: "length b = 4 \<or> length b = 5"
    and db: "list_all isDigit b"
    by (auto simp: isArxivId_def)
  have t4: "take 4 (r @ v) = a" and n4: "(r @ v) ! 4 = CHR ''.''"
    and d5: "drop 5 (r @ v) = b @ v" and len: "5 \<le> length (r @ v)"
    using la lb by (auto simp: r nth_append)
  from lb show ?thesis
  proof
    assume l5: "length b = 5"
    then show ?thesis
      unfolding matchAt_def t4 n4 d5 Let_def using da db assms(2) len by (simp add: r)
  next
    assume l4: "length b = 4"
    have "\<not> (5 \<le> length (b @ v) \<and> list_all isDigit (take 5 (b @ v)))"
    proof (cases v)
      case Nil
      with l4 show ?thesis by simp
    next
      case (Cons c cs)
      with assms(2) have "c = CHR ''v''" by (simp add: matchTail_def)
      with Cons l4 show ?thesis by (simp add: not_digit_v)
    qed
    then show ?thesis
      unfolding matchAt_def t4 n4 d5 Let_def using da db assms(2) len l4 by (auto simp: r)
  qed
qed

lemma matchFrom_sound: "matchFrom s = Some r \<Longrightarrow> \<exists>p s'. s = p @ s' \<and> matchAt s' = Some r"
proof (induction s)
  case Nil
  then show ?case by simp
next
  case (Cons c cs)
  show ?case
  proof (cases "matchAt (c # cs)")
    case None
    with Cons.prems have "matchFrom cs = Some r" by simp
    from Cons.IH [OF this] obtain p s' where "cs = p @ s'" "matchAt s' = Some r" by blast
    then have "c # cs = (c # p) @ s'" by simp
    with \<open>matchAt s' = Some r\<close> show ?thesis by blast
  next
    case (Some r')
    with Cons.prems have "matchAt (c # cs) = Some r" by simp
    then show ?thesis by (metis append_Nil)
  qed
qed

lemma matchFrom_here: "matchAt s = Some r \<Longrightarrow> matchFrom s = Some r"
  by (cases s) simp_all

lemma matchFrom_complete: "matchAt s' = Some r \<Longrightarrow> \<exists>r'. matchFrom (p @ s') = Some r'"
  by (induction p) (auto simp: matchFrom_here split: option.split)

lemma split_at_first:
  "x \<notin> set xs \<Longrightarrow> x \<notin> set ys \<Longrightarrow> xs @ x # xs' = ys @ x # ys' \<Longrightarrow> xs = ys \<and> xs' = ys'"
proof (induction xs arbitrary: ys)
  case Nil
  then show ?case by (cases ys) auto
next
  case (Cons a xs)
  then show ?case by (cases ys) auto
qed

lemma arxivId_unique:
  assumes eq: "p1 @ r1 @ v1 = p2 @ r2 @ v2"
    and "isArxivId r1" "matchTail v1" "isArxivId r2" "matchTail v2"
  shows "r1 = r2"
proof -
  from assms(2) obtain a1 b1 where r1: "r1 = a1 @ ''.'' @ b1" and la1: "length a1 = 4"
    and db1: "list_all isDigit b1" by (auto simp: isArxivId_def)
  from assms(4) obtain a2 b2 where r2: "r2 = a2 @ ''.'' @ b2" and la2: "length a2 = 4"
    and db2: "list_all isDigit b2" by (auto simp: isArxivId_def)
  have nd1: "CHR ''.'' \<notin> set (b1 @ v1)"
    using db1 matchTail_no_dot [OF assms(3)] by (auto simp: list_all_iff not_digit_dot)
  have nd2: "CHR ''.'' \<notin> set (b2 @ v2)"
    using db2 matchTail_no_dot [OF assms(5)] by (auto simp: list_all_iff not_digit_dot)
  have "(p1 @ a1) @ CHR ''.'' # (b1 @ v1) = (p2 @ a2) @ CHR ''.'' # (b2 @ v2)"
    using eq by (simp add: r1 r2)
  then have e: "rev (b1 @ v1) @ CHR ''.'' # rev (p1 @ a1) = rev (b2 @ v2) @ CHR ''.'' # rev (p2 @ a2)"
    by (metis rev_append rev.simps(2) append.assoc append_Cons append_Nil)
  have n1: "CHR ''.'' \<notin> set (rev (b1 @ v1))" and n2: "CHR ''.'' \<notin> set (rev (b2 @ v2))"
    using nd1 nd2 by simp_all
  have "rev (b1 @ v1) = rev (b2 @ v2) \<and> rev (p1 @ a1) = rev (p2 @ a2)"
    by (rule split_at_first [OF n1 n2 e])
  then have t: "b1 @ v1 = b2 @ v2" and h: "p1 @ a1 = p2 @ a2"
    by (simp_all only: rev_is_rev_conv)
  from h la1 la2 have a: "a1 = a2" by simp
  have "takeWhile isDigit (b1 @ v1) = b1"
    using db1 matchTail_no_digits [OF assms(3)] by (simp add: takeWhile_append2 list_all_iff)
  moreover have "takeWhile isDigit (b2 @ v2) = b2"
    using db2 matchTail_no_digits [OF assms(5)] by (simp add: takeWhile_append2 list_all_iff)
  ultimately have "b1 = b2" using t by simp
  with a show ?thesis by (simp add: r1 r2)
qed

lemma matchFrom_ends: "matchFrom url = Some r \<Longrightarrow> endsInArxivId url r"
proof -
  assume "matchFrom url = Some r"
  from matchFrom_sound [OF this] obtain p s' where u: "url = p @ s'" and m: "matchAt s' = Some r"
    by blast
  from matchAt_sound [OF m] obtain v where "s' = r @ v" "isArxivId r" "matchTail v" by blast
  with u show ?thesis by (auto simp: endsInArxivId_def matchTail_iff)
qed

lemma ends_matchFrom:
  assumes "endsInArxivId url i"
  shows "matchFrom url = Some i"
proof -
  from assms obtain pre v where u: "url = pre @ i @ v" and i: "isArxivId i"
    and v: "matchTail v" by (auto simp: endsInArxivId_def matchTail_iff)
  from matchFrom_complete [OF matchAt_complete [OF i v], of pre] u
  obtain r' where r': "matchFrom url = Some r'" by auto
  from matchFrom_sound [OF r'] obtain p s' where u': "url = p @ s'" and m: "matchAt s' = Some r'"
    by blast
  from matchAt_sound [OF m] obtain v' where s': "s' = r' @ v'" and i': "isArxivId r'"
    and v': "matchTail v'" by blast
  have "pre @ i @ v = p @ r' @ v'" using u u' s' by simp
  from arxivId_unique [OF this i v i' v'] r' show ?thesis by simp
qed

text \<open>
  Claim C8 (identifier extraction). If the URL ends in an identifier (four digits, a
  dot, four or five digits), optionally followed by a version suffix \<open>vN\<close>, the
  extraction returns that identifier, without the suffix. If the URL ends in no such
  pattern, the extraction throws (the error that the specification calls
  \<open>MalformedUpstreamRecord\<close> is the \<open>Error\<close> with the message below), and so does
  \<open>parseEntry\<close>, whose first statement is this call.
\<close>

theorem extractArxivId_spec:
  "(endsInArxivId url i \<longrightarrow> extractArxivId url = Inr i) \<and>
   ((\<forall>j. \<not> endsInArxivId url j) \<longrightarrow>
      extractArxivId url = Inl (Error (''Failed to extract arXiv ID from: '' @ url)))"
proof (intro conjI impI)
  assume "endsInArxivId url i"
  then show "extractArxivId url = Inr i" by (simp add: extractArxivId_def ends_matchFrom)
next
  assume none: "\<forall>j. \<not> endsInArxivId url j"
  have "matchFrom url = None"
  proof (cases "matchFrom url")
    case (Some r)
    from matchFrom_ends [OF this] none show ?thesis by blast
  qed simp
  then show "extractArxivId url = Inl (Error (''Failed to extract arXiv ID from: '' @ url))"
    by (simp add: extractArxivId_def)
qed

theorem extractArxivId_spec_witness:
  "endsInArxivId ''https://host/abs/2401.12345v2'' ''2401.12345'' \<and>
   extractArxivId ''https://host/abs/2401.12345v2'' = Inr ''2401.12345'' \<and>
   (\<forall>j. \<not> endsInArxivId ''https://host/abs/latest'' j) \<and>
   extractArxivId ''https://host/abs/latest'' =
     Inl (Error ''Failed to extract arXiv ID from: https://host/abs/latest'')"
proof -
  have i: "isArxivId ''2401.12345''"
    unfolding isArxivId_def
    by (rule exI [of _ "''2401''"], rule exI [of _ "''12345''"]) (simp add: isDigit_def)
  have v: "isVersionSuffix ''v2''"
    by (simp add: isVersionSuffix_def isDigit_def)
  have e: "endsInArxivId ''https://host/abs/2401.12345v2'' ''2401.12345''"
    unfolding endsInArxivId_def using i v
    by (intro exI [of _ "''https://host/abs/''"] exI [of _ "''v2''"]) simp
  have ev: "extractArxivId ''https://host/abs/latest'' =
      Inl (Error ''Failed to extract arXiv ID from: https://host/abs/latest'')"
    by (simp add: extractArxivId_def matchAt_def matchTail_def isDigit_def)
  have n: "\<forall>j. \<not> endsInArxivId ''https://host/abs/latest'' j"
  proof (intro allI notI)
    fix j
    assume "endsInArxivId ''https://host/abs/latest'' j"
    with extractArxivId_spec [of "''https://host/abs/latest''" j]
    have "extractArxivId ''https://host/abs/latest'' = Inr j" by blast
    with ev show False by simp
  qed
  from extractArxivId_spec [of "''https://host/abs/2401.12345v2''" "''2401.12345''"] e
  have "extractArxivId ''https://host/abs/2401.12345v2'' = Inr ''2401.12345''" by blast
  with e n ev show ?thesis by blast
qed

section \<open>Properties of the fetcher and of the collector\<close>

lemma fetchLoop_served:
  "served up q cap (length acc) pgs \<Longrightarrow> belowCap (length acc) cap \<Longrightarrow>
   fetchLoop up q cap acc (length acc) =
     fetchLoop up q cap (acc @ concat (map snd pgs)) (length (acc @ concat (map snd pgs)))"
proof (induction pgs arbitrary: acc)
  case Nil
  then show ?case by simp
next
  case (Cons pg pgs)
  let ?es = "snd pg"
  from Cons.prems(1) have
    page: "up q (length acc) (resultsToFetch cap (length acc)) = Page (fst pg) ?es"
    and ne: "?es \<noteq> []"
    and nt: "\<not> reachedTotal (length acc + length ?es) (fst pg)"
    and full: "resultsToFetch cap (length acc) \<le> length ?es"
    and below: "belowCap (length acc + length ?es) cap"
    and rest: "served up q cap (length acc + length ?es) pgs"
    by simp_all
  have "fetchLoop up q cap acc (length acc) =
        fetchLoop up q cap (acc @ ?es) (length (acc @ ?es))"
    using Cons.prems(2) page ne nt full below
    by (subst fetchLoop.simps) (simp add: not_less)
  also have "\<dots> = fetchLoop up q cap ((acc @ ?es) @ concat (map snd pgs))
                      (length ((acc @ ?es) @ concat (map snd pgs)))"
    using rest below by (intro Cons.IH) simp_all
  finally show ?case by simp
qed

lemma fetchLoop_failed:
  "belowCap (length acc) cap \<Longrightarrow>
   up q start (resultsToFetch cap (length acc)) = Failed e \<Longrightarrow>
   fetchLoop up q cap acc start = Some (if start = 0 then Inl e else Inr acc)"
  by (subst fetchLoop.simps) simp

lemma served_below:
  "served up q cap start pgs \<Longrightarrow> pgs \<noteq> [] \<Longrightarrow>
   belowCap (start + length (concat (map snd pgs))) cap \<and> concat (map snd pgs) \<noteq> []"
proof (induction pgs arbitrary: start)
  case Nil
  then show ?case by simp
next
  case (Cons pg pgs)
  show ?case
  proof (cases "pgs = []")
    case True
    with Cons.prems show ?thesis by simp
  next
    case False
    from Cons.prems have "served up q cap (start + length (snd pg)) pgs" by simp
    from Cons.IH [OF this False] show ?thesis by (simp add: add.assoc)
  qed
qed

lemma foldl_addUnseen:
  "foldl addUnseen (acc, seen) ps = (acc @ firstSeen seen ps, seen \<union> pid ` set ps)"
  by (induction ps arbitrary: acc seen) (auto simp: addUnseen_def insert_absorb)

lemma firstSeen_append:
  "firstSeen seen (xs @ ys) = firstSeen seen xs @ firstSeen (seen \<union> pid ` set xs) ys"
  by (induction xs arbitrary: seen) (auto simp: insert_absorb)

lemma collectLoop_firstSeen:
  assumes "\<forall>q\<in>set qs. fetchPapersForQuery up today (query q) opts \<noteq> None"
  shows "collectLoop up today opts (acc, seen) qs =
           Some (acc @ firstSeen seen (encountered up today opts qs))"
  using assms
proof (induction qs arbitrary: acc seen)
  case Nil
  then show ?case by simp
next
  case (Cons q qs)
  from Cons.prems obtain r where r: "fetchPapersForQuery up today (query q) opts = Some r"
    and rest: "\<forall>q\<in>set qs. fetchPapersForQuery up today (query q) opts \<noteq> None"
    by auto
  show ?case
  proof (cases r)
    case (Inl e)
    with r Cons.IH [OF rest] show ?thesis by simp
  next
    case (Inr papers)
    with r Cons.IH [OF rest] show ?thesis
      by (simp add: foldl_addUnseen firstSeen_append)
  qed
qed

lemma firstSeen_nths:
  "firstSeen seen xs =
     nths xs {i. pid (xs ! i) \<notin> seen \<and> (\<forall>j<i. pid (xs ! j) \<noteq> pid (xs ! i))}"
proof (induction xs arbitrary: seen)
  case Nil
  then show ?case by simp
next
  case (Cons p ps)
  have shift: "{j. Suc j \<in> {i. pid ((p # ps) ! i) \<notin> seen \<and>
                    (\<forall>k<i. pid ((p # ps) ! k) \<noteq> pid ((p # ps) ! i))}} =
               {j. pid (ps ! j) \<notin> insert (pid p) seen \<and> (\<forall>k<j. pid (ps ! k) \<noteq> pid (ps ! j))}"
    by (auto simp: less_Suc_eq_0_disj)
  show ?case
  proof (cases "pid p \<in> seen")
    case True
    then have "insert (pid p) seen = seen" by auto
    with True show ?thesis
      by (simp only: firstSeen.simps if_True nths_Cons shift Cons.IH [of seen])
         (simp)
  next
    case False
    then show ?thesis
      by (simp only: firstSeen.simps if_False nths_Cons shift Cons.IH [of "insert (pid p) seen"])
         (simp)
  qed
qed

text \<open>
  Claim C9 (failure semantics of the fetcher). Let the upstream serve the pages \<open>pgs\<close>
  of a query in turn from offset 0, none of them ending the pagination, and let the next
  call, at the offset reached, fail with the error \<open>e\<close> (the loop is entered: the cap
  is not 0). If no page came before, the failing call is the one at offset 0 and
  \<open>fetchPapersForQuery\<close> throws \<open>e\<close>. Otherwise the failing call is a later one, and
  \<open>fetchPapersForQuery\<close> returns, without throwing, exactly the entries of the pages
  served before it, in their order.
\<close>

theorem fetch_failure_semantics:
  assumes "served up (pageQuery today opts sq) (maxResults opts) 0 pgs"
    and "belowCap 0 (maxResults opts)"
    and "up (pageQuery today opts sq) (length (concat (map snd pgs)))
           (resultsToFetch (maxResults opts) (length (concat (map snd pgs)))) = Failed e"
  shows "(pgs = [] \<longrightarrow> fetchPapersForQuery up today sq opts = Some (Inl e)) \<and>
         (pgs \<noteq> [] \<longrightarrow> fetchPapersForQuery up today sq opts = Some (Inr (concat (map snd pgs))))"
proof -
  let ?q = "pageQuery today opts sq" and ?cap = "maxResults opts"
  let ?acc = "concat (map snd pgs)"
  have "fetchPapersForQuery up today sq opts = fetchLoop up ?q ?cap [] (length ([] :: 'a list))"
    by (simp add: fetchPapersForQuery_def)
  also have "\<dots> = fetchLoop up ?q ?cap ([] @ ?acc) (length ([] @ ?acc))"
    using assms(1,2) by (intro fetchLoop_served) simp_all
  finally have run: "fetchPapersForQuery up today sq opts = fetchLoop up ?q ?cap ?acc (length ?acc)"
    by simp
  have below: "belowCap (length ?acc) ?cap"
  proof (cases "pgs = []")
    case True
    with assms(2) show ?thesis by simp
  next
    case False
    from served_below [OF assms(1) False] show ?thesis by simp
  qed
  have "fetchPapersForQuery up today sq opts =
        Some (if length ?acc = 0 then Inl e else Inr ?acc)"
    unfolding run
    using fetchLoop_failed [of ?acc ?cap up ?q "length ?acc" e] below assms(3) by simp
  moreover have "pgs \<noteq> [] \<Longrightarrow> ?acc \<noteq> []"
    using served_below [OF assms(1)] by simp
  ultimately show ?thesis by auto
qed

theorem fetch_failure_semantics_witness:
  "fetchPapersForQuery downUpstream ''2024-03-05'' ''abs:agent'' sinceTwenty =
     Some (Inl (Error ''HTTP 503: Service Unavailable'')) \<and>
   fetchPapersForQuery flakyUpstream ''2024-03-05'' ''abs:agent'' sinceTwenty =
     Some (Inr [0..<100])"
proof -
  have cap: "belowCap 0 (maxResults sinceTwenty)"
    by (simp add: belowCap_def sinceTwenty_def)
  have a: "served downUpstream (pageQuery ''2024-03-05'' sinceTwenty ''abs:agent'')
             (maxResults sinceTwenty) 0 []"
    by simp
  have b: "served flakyUpstream (pageQuery ''2024-03-05'' sinceTwenty ''abs:agent'')
             (maxResults sinceTwenty) 0 [(Some 250, [0..<100])]"
    by (simp add: flakyUpstream_def sinceTwenty_def resultsToFetch_def
        MAX_RESULTS_PER_REQUEST_def reachedTotal_def belowCap_def)
  have fa: "downUpstream (pageQuery ''2024-03-05'' sinceTwenty ''abs:agent'')
              (length (concat (map snd ([] :: (int option \<times> nat list) list))))
              (resultsToFetch (maxResults sinceTwenty)
                (length (concat (map snd ([] :: (int option \<times> nat list) list))))) =
            Failed (Error ''HTTP 503: Service Unavailable'')"
    by (simp add: downUpstream_def)
  have fb: "flakyUpstream (pageQuery ''2024-03-05'' sinceTwenty ''abs:agent'')
              (length (concat (map snd [(Some 250 :: int option, [0..<100])])))
              (resultsToFetch (maxResults sinceTwenty)
                (length (concat (map snd [(Some 250 :: int option, [0..<100])])))) =
            Failed (Error ''HTTP 503: Service Unavailable'')"
    by (simp add: flakyUpstream_def)
  show ?thesis
    using fetch_failure_semantics [OF a cap fa] fetch_failure_semantics [OF b cap fb]
    by simp
qed

text \<open>
  Claim C7 (first-seen deduplication across queries). When every fetch returns (with
  papers or with an error, which skips the query), the collector returns the papers that
  the queries returned, in the order met, keeping a paper exactly when no earlier paper
  has its id: the first occurrence of each id, in encounter order.
\<close>

theorem collector_first_seen:
  assumes "\<forall>q\<in>set queries. fetchPapersForQuery up today (query q) opts \<noteq> None"
  shows "fetchPapersMultiQuery up today queries opts =
           Some (nths (encountered up today opts queries)
                   {i. \<forall>j<i. pid (encountered up today opts queries ! j) \<noteq>
                              pid (encountered up today opts queries ! i)})"
  using collectLoop_firstSeen [OF assms, of "[]" "{}"]
  by (simp add: fetchPapersMultiQuery_def firstSeen_nths)

theorem collector_first_seen_witness:
  "map (\<lambda>q. fetchPapersForQuery twoQueryUpstream ''2024-03-05'' (query q) noDates)
     sampleQueries =
     [Some (Inr [paperX, paperY]), Some (Inl (Error ''HTTP 400: Bad Request'')),
      Some (Inr [paperY2, paperZ])] \<and>
   encountered twoQueryUpstream ''2024-03-05'' noDates sampleQueries =
     [paperX, paperY, paperY2, paperZ] \<and>
   fetchPapersMultiQuery twoQueryUpstream ''2024-03-05'' sampleQueries noDates =
     Some (nths [paperX, paperY, paperY2, paperZ]
             {i. \<forall>j<i. pid ([paperX, paperY, paperY2, paperZ] ! j) \<noteq>
                        pid ([paperX, paperY, paperY2, paperZ] ! i)}) \<and>
   fetchPapersMultiQuery twoQueryUpstream ''2024-03-05'' sampleQueries noDates =
     Some [paperX, paperY, paperZ]"
proof -
  have q1: "fetchPapersForQuery twoQueryUpstream ''2024-03-05'' ''Q1'' noDates =
              Some (Inr [paperX, paperY])"
    and q2: "fetchPapersForQuery twoQueryUpstream ''2024-03-05'' ''Q2'' noDates =
              Some (Inr [paperY2, paperZ])"
    and qb: "fetchPapersForQuery twoQueryUpstream ''2024-03-05'' ''bad'' noDates =
              Some (Inl (Error ''HTTP 400: Bad Request''))"
    unfolding fetchPapersForQuery_def
    by (subst fetchLoop.simps,
        simp add: pageQuery_def truthy_def noDates_def
          twoQueryUpstream_def belowCap_def reachedTotal_def)+
  have ret: "\<forall>q\<in>set sampleQueries.
      fetchPapersForQuery twoQueryUpstream ''2024-03-05'' (query q) noDates \<noteq> None"
    by (simp add: sampleQueries_def q1 q2 qb)
  have enc: "encountered twoQueryUpstream ''2024-03-05'' noDates sampleQueries =
      [paperX, paperY, paperY2, paperZ]"
    by (simp add: sampleQueries_def q1 q2 qb)
  have run: "fetchPapersMultiQuery twoQueryUpstream ''2024-03-05'' sampleQueries noDates =
      Some [paperX, paperY, paperZ]"
    by (simp add: fetchPapersMultiQuery_def sampleQueries_def q1 q2 qb addUnseen_def
        paperX_def paperY_def paperY2_def paperZ_def)
  have all: "map (\<lambda>q. fetchPapersForQuery twoQueryUpstream ''2024-03-05'' (query q) noDates)
      sampleQueries =
      [Some (Inr [paperX, paperY]), Some (Inl (Error ''HTTP 400: Bad Request'')),
       Some (Inr [paperY2, paperZ])]"
    by (simp add: sampleQueries_def q1 q2 qb)
  show ?thesis
    using collector_first_seen [OF ret] all run unfolding enc by simp
qed

section \<open>Properties of the index builder\<close>

lemma set_insertBy: "set (insertBy cmp x ys) = insert x (set ys)"
  by (induction ys) auto

lemma length_insertBy: "length (insertBy cmp x ys) = Suc (length ys)"
  by (induction ys) auto

lemma set_jsSort: "set (jsSort cmp xs) = set xs"
  unfolding jsSort_def by (induction xs) (simp_all add: set_insertBy)

lemma length_jsSort: "length (jsSort cmp xs) = length xs"
  unfolding jsSort_def by (induction xs) (simp_all add: length_insertBy)

lemma set_uniq: "set (uniq xs) = set xs"
  by (induction xs) auto

lemma distinct_uniq: "distinct (uniq xs)"
  by (induction xs) (auto simp: set_uniq)

lemma ix_papers_set:
  "set (ix_papers (buildIndex dp now papers blocklist)) =
     indexEntryOf ` {p \<in> set papers. pid p \<notin> blocklist}"
  by (auto simp: buildIndex_def Let_def set_jsSort)

lemma ix_id_entry: "ix_id (indexEntryOf p) = pid p" and ix_year_entry: "ix_year (indexEntryOf p) = yearOf p"
  by (simp_all add: indexEntryOf_def)

lemma metaYears_set:
  "set (metaYears (ix_meta (buildIndex dp now papers blocklist))) =
     yearOf ` {p \<in> set papers. pid p \<notin> blocklist}"
proof -
  have "set (metaYears (ix_meta (buildIndex dp now papers blocklist))) =
        ix_year ` set (ix_papers (buildIndex dp now papers blocklist))"
    by (simp add: buildIndex_def Let_def set_jsSort set_uniq)
  then show ?thesis by (simp add: ix_papers_set image_image ix_year_entry)
qed

text \<open>
  Claim C6 (the index excludes blocked records). For every directory of year
  partitions and every block-list, the entries of the index are the projections of
  exactly the papers whose id is not blocked, so no entry has a blocked id;
  \<open>meta.totalPapers\<close> counts the papers that are not blocked; \<open>meta.years\<close> holds
  exactly the publication years of the papers that are not blocked, so a year all of
  whose papers are blocked is not in it.
\<close>

theorem buildIndex_excludes_blocked:
  "set (ix_papers (buildIndex dp now (loadAllPapers store) blocklist)) =
     indexEntryOf ` {p \<in> set (loadAllPapers store). pid p \<notin> blocklist} \<and>
   (\<forall>e\<in>set (ix_papers (buildIndex dp now (loadAllPapers store) blocklist)).
      ix_id e \<notin> blocklist) \<and>
   totalPapers (ix_meta (buildIndex dp now (loadAllPapers store) blocklist)) =
     length (filter (\<lambda>p. pid p \<notin> blocklist) (loadAllPapers store)) \<and>
   set (metaYears (ix_meta (buildIndex dp now (loadAllPapers store) blocklist))) =
     yearOf ` {p \<in> set (loadAllPapers store). pid p \<notin> blocklist} \<and>
   (\<forall>y. (\<forall>p\<in>set (loadAllPapers store). yearOf p = y \<longrightarrow> pid p \<in> blocklist) \<longrightarrow>
        y \<notin> set (metaYears (ix_meta (buildIndex dp now (loadAllPapers store) blocklist))))"
proof -
  have a: "\<forall>e\<in>set (ix_papers (buildIndex dp now (loadAllPapers store) blocklist)).
      ix_id e \<notin> blocklist"
    by (auto simp: ix_papers_set ix_id_entry)
  have b: "totalPapers (ix_meta (buildIndex dp now (loadAllPapers store) blocklist)) =
     length (filter (\<lambda>p. pid p \<notin> blocklist) (loadAllPapers store))"
    by (simp add: buildIndex_def Let_def length_jsSort)
  have c: "\<forall>y. (\<forall>p\<in>set (loadAllPapers store). yearOf p = y \<longrightarrow> pid p \<in> blocklist) \<longrightarrow>
        y \<notin> set (metaYears (ix_meta (buildIndex dp now (loadAllPapers store) blocklist)))"
    unfolding metaYears_set by blast
  show ?thesis
    by (intro conjI) (rule ix_papers_set, rule a, rule b, rule metaYears_set, rule c)
qed

theorem buildIndex_excludes_blocked_witness:
  "totalPapers (ix_meta (buildIndex sampleDates ''2024-03-06T00:00:00.000Z''
      (loadAllPapers sampleStore) {''2311.00009''})) = 2 \<and>
   metaYears (ix_meta (buildIndex sampleDates ''2024-03-06T00:00:00.000Z''
      (loadAllPapers sampleStore) {''2311.00009''})) = [Some 2024] \<and>
   map ix_id (ix_papers (buildIndex sampleDates ''2024-03-06T00:00:00.000Z''
      (loadAllPapers sampleStore) {''2311.00009''})) = [''2403.00003'', ''2401.00001''] \<and>
   Some 2023 \<notin> set (metaYears (ix_meta (buildIndex sampleDates ''2024-03-06T00:00:00.000Z''
      (loadAllPapers sampleStore) {''2311.00009''})))"
proof -
  let ?idx = "buildIndex sampleDates ''2024-03-06T00:00:00.000Z''
      (loadAllPapers sampleStore) {''2311.00009''}"
  have ev: "totalPapers (ix_meta ?idx) = 2 \<and> metaYears (ix_meta ?idx) = [Some 2024] \<and>
      map ix_id (ix_papers ?idx) = [''2403.00003'', ''2401.00001'']"
    by code_simp
  have blocked: "\<forall>p\<in>set (loadAllPapers sampleStore).
      yearOf p = Some 2023 \<longrightarrow> pid p \<in> {''2311.00009''}"
    by code_simp
  have "\<forall>y. (\<forall>p\<in>set (loadAllPapers sampleStore). yearOf p = y \<longrightarrow> pid p \<in> {''2311.00009''}) \<longrightarrow>
        y \<notin> set (metaYears (ix_meta ?idx))"
    using buildIndex_excludes_blocked
      [of sampleDates "''2024-03-06T00:00:00.000Z''" sampleStore "{''2311.00009''}"]
    by (elim conjE)
  then have "Some 2023 \<notin> set (metaYears (ix_meta ?idx))"
    using blocked by (elim allE [of _ "Some 2023"] impE) assumption+
  with ev show ?thesis by (intro conjI) (elim conjE, assumption)+
qed

section \<open>Properties of the year store\<close>

lemma set_update_subset: "set (AList.update k v m) \<subseteq> insert (k, v) (set m)"
  by (induction m) auto

lemma yearOf_carryForward: "yearOf (carryForward e n) = yearOf n"
  by (simp add: yearOf_def carryForward_def)

text \<open>Categorization keeps ids and years.\<close>

lemma categorizePapers_trace:
  "c \<in> set (categorizePapers ps cats) \<Longrightarrow> \<exists>p\<in>set ps. pid p = pid c \<and> yearOf p = yearOf c"
  by (auto simp: categorizePapers_def Let_def yearOf_def)

text \<open>Deduplication.\<close>

lemma dedupStep_inv:
  assumes "fst ` set seen = pid ` set us" "distinct (map pid us)" "set us \<subseteq> S" "p \<in> S"
    and "dedupStep (seen, us, dups) p = (seen', us', dups')"
  shows "fst ` set seen' = pid ` set us' \<and> distinct (map pid us') \<and> set us' \<subseteq> S"
proof (cases "map_of seen (pid p)")
  case None
  then have nk: "pid p \<notin> fst ` set seen" by (simp add: map_of_eq_None_iff)
  from None assms(5) have s': "seen' = AList.update (pid p) p seen" and u': "us' = us @ [p]"
    by (simp_all add: dedupStep_def)
  have "fst ` set seen' = {pid p} \<union> fst ` set seen" unfolding s' by (rule dom_update)
  with assms(1-4) nk show ?thesis by (auto simp: u')
next
  case (Some f)
  with assms(5) have "seen' = seen" "us' = us" by (simp_all add: dedupStep_def)
  with assms(1-3) show ?thesis by simp
qed

lemma dedup_foldl_inv:
  assumes "fst ` set seen = pid ` set us" "distinct (map pid us)" "set us \<subseteq> S" "set ps \<subseteq> S"
  shows "distinct (map pid (fst (snd (foldl dedupStep (seen, us, dups) ps)))) \<and>
         set (fst (snd (foldl dedupStep (seen, us, dups) ps))) \<subseteq> S"
  using assms
proof (induction ps arbitrary: seen us dups)
  case Nil
  then show ?case by simp
next
  case (Cons p ps)
  obtain seen' us' dups' where st: "dedupStep (seen, us, dups) p = (seen', us', dups')"
    by (cases "dedupStep (seen, us, dups) p") auto
  from Cons.prems have "p \<in> S" "set ps \<subseteq> S" by auto
  from dedupStep_inv [OF Cons.prems(1,2,3) \<open>p \<in> S\<close> st]
  have "fst ` set seen' = pid ` set us'" "distinct (map pid us')" "set us' \<subseteq> S" by auto
  from Cons.IH [OF this \<open>set ps \<subseteq> S\<close>] show ?case by (simp add: st)
qed

lemma deduplicatePapers_unique:
  "distinct (map pid (fst (deduplicatePapers ps))) \<and> set (fst (deduplicatePapers ps)) \<subseteq> set ps"
  using dedup_foldl_inv [of "[]" "[]" "set ps" ps "[]"] by (simp add: deduplicatePapers_def)

text \<open>Grouping by year.\<close>

lemma organize_foldl:
  assumes "distinct (map fst m)" "fst ` set m = yearOf ` set seen"
    and "\<forall>kv\<in>set m. snd kv = filter (\<lambda>p. yearOf p = fst kv) seen"
  shows "\<forall>y. loadYearPapers
           (foldl (\<lambda>papersByYear paper.
              AList.update (yearOf paper) (loadYearPapers papersByYear (yearOf paper) @ [paper])
                papersByYear) m ps) y = filter (\<lambda>p. yearOf p = y) (seen @ ps)"
  using assms
proof (induction ps arbitrary: m seen)
  case Nil
  show ?case
  proof
    fix y
    show "loadYearPapers
           (foldl (\<lambda>papersByYear paper.
              AList.update (yearOf paper) (loadYearPapers papersByYear (yearOf paper) @ [paper])
                papersByYear) m []) y = filter (\<lambda>p. yearOf p = y) (seen @ [])"
    proof (cases "map_of m y")
      case None
      then have "y \<notin> yearOf ` set seen" using Nil.prems(2) by (simp add: map_of_eq_None_iff)
      then have "filter (\<lambda>p. yearOf p = y) seen = []" by (auto simp: filter_empty_conv)
      with None show ?thesis by (simp add: loadYearPapers_def)
    next
      case (Some g)
      then have "(y, g) \<in> set m" by (rule map_of_SomeD)
      with Nil.prems(3) have "g = filter (\<lambda>p. yearOf p = y) seen" by force
      with Some show ?thesis by (simp add: loadYearPapers_def)
    qed
  qed
next
  case (Cons p ps)
  let ?y = "yearOf p"
  let ?g = "loadYearPapers m ?y @ [p]"
  let ?m' = "AList.update ?y ?g m"
  have g: "loadYearPapers m ?y = filter (\<lambda>q. yearOf q = ?y) seen"
  proof (cases "map_of m ?y")
    case None
    then have "?y \<notin> yearOf ` set seen" using Cons.prems(2) by (simp add: map_of_eq_None_iff)
    then have "filter (\<lambda>q. yearOf q = ?y) seen = []"
      by (auto simp: filter_empty_conv image_iff)
    with None show ?thesis by (simp add: loadYearPapers_def)
  next
    case (Some g)
    then have "(?y, g) \<in> set m" by (rule map_of_SomeD)
    with Cons.prems(3) have "g = filter (\<lambda>q. yearOf q = ?y) seen" by force
    with Some show ?thesis by (simp add: loadYearPapers_def)
  qed
  have d: "distinct (map fst ?m')" using Cons.prems(1) by (rule distinct_update)
  have k: "fst ` set ?m' = yearOf ` set (seen @ [p])"
    using dom_update [of ?y ?g m] Cons.prems(2) by auto
  have v: "\<forall>kv\<in>set ?m'. snd kv = filter (\<lambda>q. yearOf q = fst kv) (seen @ [p])"
  proof
    fix kv assume "kv \<in> set ?m'"
    with set_update_subset [of ?y ?g m] have "kv = (?y, ?g) \<or> (kv \<in> set m \<and> kv \<in> set ?m')" by auto
    then show "snd kv = filter (\<lambda>q. yearOf q = fst kv) (seen @ [p])"
    proof
      assume "kv = (?y, ?g)"
      then show ?thesis by (simp add: g)
    next
      assume a: "kv \<in> set m \<and> kv \<in> set ?m'"
      show ?thesis
      proof (cases "fst kv = ?y")
        case True
        have "map_of ?m' ?y = Some ?g" by (simp add: update_conv')
        moreover have "map_of ?m' (fst kv) = Some (snd kv)"
          using a d by (simp add: map_of_is_SomeI)
        ultimately have "snd kv = ?g" using True by simp
        with True show ?thesis by (simp add: g)
      next
        case False
        with a Cons.prems(3) show ?thesis by auto
      qed
    qed
  qed
  from Cons.IH [OF d k v] show ?case by simp
qed

lemma organize_groups:
  "loadYearPapers (organizePapersByYear ps) y = filter (\<lambda>p. yearOf p = y) ps"
  using organize_foldl [of "[]" "[]" ps] by (simp add: organizePapersByYear_def)

text \<open>The merge keeps ids distinct and invents neither ids nor years.\<close>

lemma mergePapers_distinct: "distinct (map pid (merged (mergePapers dp ex new)))"
proof -
  obtain m a u where st: "foldl (mergeStep dp) (loadMap ex, 0, 0) new = (m, a, u)"
    by (cases "foldl (mergeStep dp) (loadMap ex, 0, 0) new") auto
  from foldl_mergeStep_inv [OF wfMap_loadMap, of dp ex 0 0 new]
  have w: "wfMap m" by (simp add: st)
  then have "map pid (map snd m) = map fst m" by (induction m) (auto simp: wfMap_def)
  moreover have "distinct (map fst m)" using w by (simp add: wfMap_def)
  ultimately have "distinct (map pid (map snd m))" by (simp only:)
  then show ?thesis by (simp add: mergePapers_def st)
qed

lemma traced_update:
  "\<forall>kv\<in>set m. P (snd kv) \<Longrightarrow> P v \<Longrightarrow> \<forall>kv\<in>set (AList.update k v m). P (snd kv)"
  using set_update_subset [of k v m] by auto

lemma mergeStep_trace:
  assumes "\<forall>kv\<in>set m. \<exists>p\<in>S. pid p = pid (snd kv) \<and> yearOf p = yearOf (snd kv)" "n \<in> S"
  shows "\<forall>kv\<in>set (fst (mergeStep dp (m, a, u) n)).
           \<exists>p\<in>S. pid p = pid (snd kv) \<and> yearOf p = yearOf (snd kv)"
proof -
  have n: "\<exists>p\<in>S. pid p = pid n \<and> yearOf p = yearOf n" using assms(2) by blast
  have c: "\<exists>p\<in>S. pid p = pid (carryForward e n) \<and> yearOf p = yearOf (carryForward e n)" for e
    using assms(2) by (auto simp: pid_carryForward yearOf_carryForward)
  show ?thesis
    using traced_update [OF assms(1) n] traced_update [OF assms(1) c] assms(1)
    by (simp add: mergeStep_def split: option.split)
qed

lemma foldl_mergeStep_trace:
  assumes "\<forall>kv\<in>set m. \<exists>p\<in>S. pid p = pid (snd kv) \<and> yearOf p = yearOf (snd kv)" "set ns \<subseteq> S"
  shows "\<forall>kv\<in>set (fst (foldl (mergeStep dp) (m, a, u) ns)).
           \<exists>p\<in>S. pid p = pid (snd kv) \<and> yearOf p = yearOf (snd kv)"
  using assms
proof (induction ns arbitrary: m a u)
  case Nil
  then show ?case by simp
next
  case (Cons n ns)
  obtain m' a' u' where st: "mergeStep dp (m, a, u) n = (m', a', u')"
    by (cases "mergeStep dp (m, a, u) n") auto
  from Cons.prems have "n \<in> S" "set ns \<subseteq> S" by auto
  from mergeStep_trace [OF Cons.prems(1) \<open>n \<in> S\<close>, of dp a u]
  have "\<forall>kv\<in>set m'. \<exists>p\<in>S. pid p = pid (snd kv) \<and> yearOf p = yearOf (snd kv)"
    by (simp add: st)
  from Cons.IH [OF this \<open>set ns \<subseteq> S\<close>] show ?case by (simp add: st)
qed

lemma loadMap_trace: "\<forall>kv\<in>set (loadMap ex). snd kv \<in> set ex"
proof -
  have "\<forall>kv\<in>set m. snd kv \<in> S \<Longrightarrow> set ps \<subseteq> S \<Longrightarrow>
        \<forall>kv\<in>set (foldl (\<lambda>m p. AList.update (pid p) p m) m ps). snd kv \<in> S" for m ps S
  proof (induction ps arbitrary: m)
    case Nil
    then show ?case by simp
  next
    case (Cons p ps)
    from Cons.prems have "p \<in> S" "set ps \<subseteq> S" by auto
    from traced_update [of m "\<lambda>v. v \<in> S", OF Cons.prems(1) \<open>p \<in> S\<close>]
    have "\<forall>kv\<in>set (AList.update (pid p) p m). snd kv \<in> S" .
    from Cons.IH [OF this \<open>set ps \<subseteq> S\<close>] show ?case by simp
  qed
  from this [of "[]" "set ex" ex] show ?thesis by (simp add: loadMap_def)
qed

lemma mergePapers_trace:
  assumes "r \<in> set (merged (mergePapers dp ex new))"
  shows "\<exists>p\<in>set ex \<union> set new. pid p = pid r \<and> yearOf p = yearOf r"
proof -
  obtain m a u where st: "foldl (mergeStep dp) (loadMap ex, 0, 0) new = (m, a, u)"
    by (cases "foldl (mergeStep dp) (loadMap ex, 0, 0) new") auto
  have "\<forall>kv\<in>set (loadMap ex). \<exists>p\<in>set ex \<union> set new. pid p = pid (snd kv) \<and> yearOf p = yearOf (snd kv)"
    using loadMap_trace [of ex] by blast
  from foldl_mergeStep_trace [OF this, of new dp 0 0]
  have "\<forall>kv\<in>set m. \<exists>p\<in>set ex \<union> set new. pid p = pid (snd kv) \<and> yearOf p = yearOf (snd kv)"
    by (simp add: st)
  moreover from assms have "r \<in> snd ` set m" by (simp add: mergePapers_def st)
  ultimately show ?thesis by auto
qed

lemma all_update:
  "\<forall>kv\<in>set m. P kv \<Longrightarrow> P (k, v) \<Longrightarrow> \<forall>kv\<in>set (AList.update k v m). P kv"
  using set_update_subset [of k v m] by auto

lemma traced_trans:
  assumes "\<forall>r\<in>set rs. \<exists>p\<in>S. pid p = pid r \<and> yearOf p = yearOf r"
    and "\<forall>p\<in>S. \<exists>b\<in>B. pid b = pid p \<and> yearOf b = yearOf p"
  shows "traced B rs"
  unfolding traced_def list_all_iff
proof
  fix r assume "r \<in> set rs"
  with assms(1) obtain p where "p \<in> S" "pid p = pid r" "yearOf p = yearOf r" by blast
  moreover from assms(2) \<open>p \<in> S\<close> obtain b where "b \<in> B" "pid b = pid p" "yearOf b = yearOf p"
    by blast
  ultimately show "\<exists>b\<in>B. pid b = pid r \<and> yearOf b = yearOf r" by auto
qed

lemma stored_partition:
  assumes "storeOK st" "\<forall>part\<in>set st. traced B (snd part)"
  shows "(\<forall>p\<in>set (loadYearPapers st y). yearOf p = y) \<and> traced B (loadYearPapers st y)"
proof (cases "map_of st y")
  case None
  then show ?thesis by (simp add: loadYearPapers_def traced_def)
next
  case (Some ps)
  then have "(y, ps) \<in> set st" by (rule map_of_SomeD)
  with assms have "partitionOK (y, ps)" "traced B ps"
    by (auto simp: storeOK_def list_all_iff)
  with Some show ?thesis by (simp add: loadYearPapers_def partitionOK_def list_all_iff)
qed

lemma mergeYear_inv:
  assumes ok: "storeOK st" and tr: "\<forall>part\<in>set st. traced B (snd part)"
    and ny: "\<forall>p\<in>set (loadYearPapers byYear y). yearOf p = y"
    and nt: "traced B (loadYearPapers byYear y)"
  shows "storeOK (mergeYear dp byYear st y) \<and>
         (\<forall>part\<in>set (mergeYear dp byYear st y). traced B (snd part))"
proof -
  let ?ex = "loadYearPapers st y" and ?new = "loadYearPapers byYear y"
  let ?mg = "merged (mergePapers dp ?ex ?new)"
  have my: "mergeYear dp byYear st y = AList.update y ?mg st"
    by (simp add: mergeYear_def saveYearPapers_def Let_def)
  from stored_partition [OF ok tr, of y]
  have ey: "\<forall>p\<in>set ?ex. yearOf p = y" and et: "traced B ?ex" by auto
  have src: "\<forall>r\<in>set ?mg. \<exists>p\<in>set ?ex \<union> set ?new. pid p = pid r \<and> yearOf p = yearOf r"
    using mergePapers_trace by blast
  have year: "\<forall>r\<in>set ?mg. yearOf r = y"
  proof
    fix r assume "r \<in> set ?mg"
    with src obtain p where "p \<in> set ?ex \<union> set ?new" "yearOf p = yearOf r" by blast
    with ey ny show "yearOf r = y" by auto
  qed
  have "\<forall>p\<in>set ?ex \<union> set ?new. \<exists>b\<in>B. pid b = pid p \<and> yearOf b = yearOf p"
    using et nt by (auto simp: traced_def list_all_iff)
  with src have mt: "traced B ?mg" by (rule traced_trans)
  have pk: "partitionOK (y, ?mg)"
    using year by (simp add: partitionOK_def mergePapers_distinct list_all_iff)
  have "distinct (map fst (AList.update y ?mg st))"
    using ok by (simp add: storeOK_def distinct_update)
  moreover have "\<forall>kv\<in>set (AList.update y ?mg st). partitionOK kv"
    using ok pk by (intro all_update) (simp_all add: storeOK_def list_all_iff)
  moreover have "\<forall>kv\<in>set (AList.update y ?mg st). traced B (snd kv)"
    using tr mt by (intro all_update) simp_all
  ultimately show ?thesis by (simp add: my storeOK_def list_all_iff)
qed

lemma foldl_mergeYear_inv:
  assumes "storeOK st" "\<forall>part\<in>set st. traced B (snd part)"
    and "\<forall>y. (\<forall>p\<in>set (loadYearPapers byYear y). yearOf p = y) \<and>
             traced B (loadYearPapers byYear y)"
  shows "storeOK (foldl (mergeYear dp byYear) st ys) \<and>
         (\<forall>part\<in>set (foldl (mergeYear dp byYear) st ys). traced B (snd part))"
  using assms(1,2)
proof (induction ys arbitrary: st)
  case Nil
  then show ?case by simp
next
  case (Cons y ys)
  from assms(3) have "\<forall>p\<in>set (loadYearPapers byYear y). yearOf p = y"
    and "traced B (loadYearPapers byYear y)" by auto
  from mergeYear_inv [OF Cons.prems this, of dp]
  have "storeOK (mergeYear dp byYear st y)"
    and "\<forall>part\<in>set (mergeYear dp byYear st y). traced B (snd part)" by auto
  from Cons.IH [OF this] show ?case by simp
qed

lemma updateIncremental_inv:
  assumes "storeOK st" "\<forall>part\<in>set st. traced B (snd part)" "set ps \<subseteq> B"
  shows "storeOK (updateIncremental dp cats st ps) \<and>
         (\<forall>part\<in>set (updateIncremental dp cats st ps). traced B (snd part))"
proof (cases "ps = []")
  case True
  with assms show ?thesis by (simp add: updateIncremental_def)
next
  case False
  let ?u = "fst (deduplicatePapers (categorizePapers ps cats))"
  let ?by = "organizePapersByYear ?u"
  have grp: "\<forall>y. (\<forall>p\<in>set (loadYearPapers ?by y). yearOf p = y) \<and>
                 traced B (loadYearPapers ?by y)"
  proof
    fix y
    have "traced B (filter (\<lambda>p. yearOf p = y) ?u)"
      unfolding traced_def list_all_iff
    proof
      fix r assume "r \<in> set (filter (\<lambda>p. yearOf p = y) ?u)"
      then have "r \<in> set (categorizePapers ps cats)"
        using deduplicatePapers_unique [of "categorizePapers ps cats"] by auto
      from categorizePapers_trace [OF this] assms(3)
      show "\<exists>p\<in>B. pid p = pid r \<and> yearOf p = yearOf r" by blast
    qed
    then show "(\<forall>p\<in>set (loadYearPapers ?by y). yearOf p = y) \<and>
               traced B (loadYearPapers ?by y)"
      by (simp add: organize_groups)
  qed
  from foldl_mergeYear_inv [OF assms(1,2) grp]
  show ?thesis using False by (simp add: updateIncremental_def Let_def)
qed

lemma runUpdates_inv:
  assumes "storeOK st" "\<forall>part\<in>set st. traced B (snd part)"
    and "\<forall>run\<in>set runs. set (snd run) \<subseteq> B"
  shows "storeOK (runUpdates dp st runs) \<and>
         (\<forall>part\<in>set (runUpdates dp st runs). traced B (snd part))"
  using assms unfolding runUpdates_def
proof (induction runs arbitrary: st)
  case Nil
  then show ?case by simp
next
  case (Cons run runs)
  from Cons.prems(3) have b: "set (snd run) \<subseteq> B" and rest: "\<forall>run\<in>set runs. set (snd run) \<subseteq> B"
    by auto
  from updateIncremental_inv [OF Cons.prems(1,2) b, of dp "fst run"]
  have "storeOK (updateIncremental dp (fst run) st (snd run))"
    and "\<forall>part\<in>set (updateIncremental dp (fst run) st (snd run)). traced B (snd part)" by auto
  from Cons.IH [OF this rest] show ?case by simp
qed

lemma store_wide_distinct:
  assumes "distinct (map fst st)"
    and "\<forall>part\<in>set st. distinct (map pid (snd part))"
    and "\<forall>a\<in>set st. \<forall>b\<in>set st. \<forall>r\<in>set (snd a). \<forall>s\<in>set (snd b).
            pid r = pid s \<longrightarrow> fst a = fst b"
  shows "distinct (map pid (loadAllPapers st))"
  using assms unfolding loadAllPapers_def
proof (induction st)
  case Nil
  then show ?case by simp
next
  case (Cons part st)
  have ih: "distinct (map pid (concat (map snd st)))"
    using Cons.prems by (intro Cons.IH) auto
  have here: "distinct (map pid (snd part))" using Cons.prems(2) by simp
  have disj: "pid ` set (snd part) \<inter> pid ` set (concat (map snd st)) = {}"
  proof (rule ccontr)
    assume "pid ` set (snd part) \<inter> pid ` set (concat (map snd st)) \<noteq> {}"
    then obtain r s b where "r \<in> set (snd part)" "b \<in> set st" "s \<in> set (snd b)" "pid r = pid s"
      by auto
    with Cons.prems(3) have "fst part = fst b" by (metis list.set_intros(1,2))
    with \<open>b \<in> set st\<close> Cons.prems(1) show False by auto
  qed
  from ih here disj show ?case by simp
qed

text \<open>
  Claim C3 (store-wide uniqueness) fails as stated. The update keeps one record per id
  inside a partition, and nothing in it looks at another partition: when a paper is
  fetched in two runs with publication dates in different years, each run files it under
  its year, and the store holds the id twice.
\<close>

theorem store_uniqueness_counterexample:
  "map (\<lambda>part. (fst part, map pid (snd part)))
     (runUpdates sampleDates [] [(agentsOnly, [paperW]), (agentsOnly, [paperW2])]) =
     [(Some 2023, [''2312.00007'']), (Some 2024, [''2312.00007''])] \<and>
   \<not> distinct (map pid (loadAllPapers
     (runUpdates sampleDates [] [(agentsOnly, [paperW]), (agentsOnly, [paperW2])])))"
  by code_simp

text \<open>
  Claim C3, as amended. From the empty store on, after any sequence of update runs
  (categorization, batch deduplication, organization by year, merge and save per year),
  no persisted partition contains two records with the same id; and the union of all
  partitions contains no two records with the same id provided that the fetched papers
  with one id all have one publication year.
\<close>

theorem store_uniqueness:
  "list_all (\<lambda>part. distinct (map pid (snd part))) (runUpdates dp [] runs) \<and>
   ((\<forall>p\<in>set (concat (map snd runs)). \<forall>q\<in>set (concat (map snd runs)).
       pid p = pid q \<longrightarrow> yearOf p = yearOf q) \<longrightarrow>
    distinct (map pid (loadAllPapers (runUpdates dp [] runs))))"
proof -
  define B where "B = set (concat (map snd runs))"
  let ?st = "runUpdates dp [] runs"
  have "storeOK []" by (simp add: storeOK_def)
  moreover have "\<forall>part\<in>set ([] :: 'a yearStore). traced B (snd part)" by simp
  moreover have "\<forall>run\<in>set runs. set (snd run) \<subseteq> B" by (auto simp: B_def)
  ultimately have inv: "storeOK ?st \<and> (\<forall>part\<in>set ?st. traced B (snd part))"
    by (rule runUpdates_inv)
  then have ok: "storeOK ?st" and tr: "\<forall>part\<in>set ?st. traced B (snd part)" by auto
  have parts: "\<forall>part\<in>set ?st. distinct (map pid (snd part))"
    using ok by (auto simp: storeOK_def partitionOK_def list_all_iff)
  have wide: "distinct (map pid (loadAllPapers ?st))"
    if stable: "\<forall>p\<in>B. \<forall>q\<in>B. pid p = pid q \<longrightarrow> yearOf p = yearOf q"
  proof (rule store_wide_distinct)
    show "distinct (map fst ?st)" using ok by (simp add: storeOK_def)
    show "\<forall>part\<in>set ?st. distinct (map pid (snd part))" by (rule parts)
    show "\<forall>a\<in>set ?st. \<forall>b\<in>set ?st. \<forall>r\<in>set (snd a). \<forall>s\<in>set (snd b).
            pid r = pid s \<longrightarrow> fst a = fst b"
    proof (intro ballI impI)
      fix a b r s
      assume a: "a \<in> set ?st" and b: "b \<in> set ?st" and r: "r \<in> set (snd a)"
        and s: "s \<in> set (snd b)" and eq: "pid r = pid s"
      from ok a r have ya: "yearOf r = fst a"
        by (auto simp: storeOK_def partitionOK_def list_all_iff)
      from ok b s have yb: "yearOf s = fst b"
        by (auto simp: storeOK_def partitionOK_def list_all_iff)
      from tr a r obtain p where p: "p \<in> B" "pid p = pid r" "yearOf p = yearOf r"
        by (auto simp: traced_def list_all_iff)
      from tr b s obtain q where q: "q \<in> B" "pid q = pid s" "yearOf q = yearOf s"
        by (auto simp: traced_def list_all_iff)
      have "pid p = pid q" by (simp only: p(2) q(2) eq)
      with stable p(1) q(1) have pq: "yearOf p = yearOf q" by blast
      have "fst a = yearOf r" by (simp only: ya)
      also have "\<dots> = yearOf p" by (simp only: p(3))
      also have "\<dots> = yearOf q" by (rule pq)
      also have "\<dots> = yearOf s" by (simp only: q(3))
      also have "\<dots> = fst b" by (simp only: yb)
      finally show "fst a = fst b" .
    qed
  qed
  have c1: "list_all (\<lambda>part. distinct (map pid (snd part))) ?st"
    using parts by (simp only: list_all_iff)
  have c2: "(\<forall>p\<in>B. \<forall>q\<in>B. pid p = pid q \<longrightarrow> yearOf p = yearOf q) \<longrightarrow>
    distinct (map pid (loadAllPapers ?st))"
    using wide by (rule impI)
  from c1 c2 [unfolded B_def] show ?thesis by (rule conjI)
qed

theorem store_uniqueness_witness:
  "map pid (loadAllPapers (runUpdates sampleDates []
      [(agentsOnly, [paperX, paperY]), (agentsOnly, [paperY2, paperZ])])) =
     [''2401.00001'', ''2402.00002'', ''2403.00003''] \<and>
   distinct (map pid (loadAllPapers (runUpdates sampleDates []
      [(agentsOnly, [paperX, paperY]), (agentsOnly, [paperY2, paperZ])])))"
proof -
  have ids: "map pid (loadAllPapers (runUpdates sampleDates []
      [(agentsOnly, [paperX, paperY]), (agentsOnly, [paperY2, paperZ])])) =
     [''2401.00001'', ''2402.00002'', ''2403.00003'']"
    by code_simp
  have stable:
    "\<forall>p\<in>set (concat (map snd [(agentsOnly, [paperX, paperY]), (agentsOnly, [paperY2, paperZ])])).
     \<forall>q\<in>set (concat (map snd [(agentsOnly, [paperX, paperY]), (agentsOnly, [paperY2, paperZ])])).
       pid p = pid q \<longrightarrow> yearOf p = yearOf q"
    by code_simp
  have "distinct (map pid (loadAllPapers (runUpdates sampleDates []
      [(agentsOnly, [paperX, paperY]), (agentsOnly, [paperY2, paperZ])])))"
    by (rule store_uniqueness [of sampleDates
        "[(agentsOnly, [paperX, paperY]), (agentsOnly, [paperY2, paperZ])]",
        THEN conjunct2, THEN mp, OF stable])
  with ids show ?thesis by (rule conjI)
qed

end
